theory Spec2Isabelle
  imports Complex_Main "HOL-Library.Sublist" "HOL-Library.Log_Nat"
begin

section \<open>Numbers and errors of the Python code\<close>

text \<open>
  The notebooks compute with IEEE floating point numbers (Python floats, numpy
  float64 scalars, torch float32 tensors).  They are modelled by the reals extended
  with both infinities and NaN: the special values the code produces and tests for
  are modelled, overflow is not, and the arithmetic on these values is exact.  Where
  the code reads an integer off a rounded value or branches on one, the rounding is
  modelled (the number of masks) or the operation is a parameter (the mean and the
  standard deviation of numpy).  Signed zeros are not distinguished.
\<close>

datatype pyfloat = Fin real | PosInf | NegInf | NaN

text \<open>
  The exceptions: \<open>ValueError\<close>, \<open>ZeroDivisionError\<close> and \<open>IndexError\<close> are the
  ones Python and its libraries raise in the code below.  \<open>InvalidMaskRatio\<close> is the
  condition the specification names for the Span Masker; no path of the code raises it.
  A function that can raise returns a sum, with the exception on the left.
\<close>

datatype error = ValueError | ZeroDivisionError | IndexError | InvalidMaskRatio

fun fneg :: "pyfloat \<Rightarrow> pyfloat" where
  "fneg (Fin a) = Fin (- a)"
| "fneg PosInf = NegInf"
| "fneg NegInf = PosInf"
| "fneg NaN = NaN"

fun fadd :: "pyfloat \<Rightarrow> pyfloat \<Rightarrow> pyfloat" where
  "fadd (Fin a) (Fin b) = Fin (a + b)"
| "fadd NaN y = NaN"
| "fadd x NaN = NaN"
| "fadd PosInf NegInf = NaN"
| "fadd NegInf PosInf = NaN"
| "fadd PosInf y = PosInf"
| "fadd NegInf y = NegInf"
| "fadd (Fin a) y = y"

definition fsub :: "pyfloat \<Rightarrow> pyfloat \<Rightarrow> pyfloat" where
  "fsub x y = fadd x (fneg y)"

fun fmul :: "pyfloat \<Rightarrow> pyfloat \<Rightarrow> pyfloat" where
  "fmul (Fin a) (Fin b) = Fin (a * b)"
| "fmul NaN y = NaN"
| "fmul x NaN = NaN"
| "fmul (Fin a) PosInf = (if a = 0 then NaN else if 0 < a then PosInf else NegInf)"
| "fmul (Fin a) NegInf = (if a = 0 then NaN else if 0 < a then NegInf else PosInf)"
| "fmul PosInf (Fin b) = (if b = 0 then NaN else if 0 < b then PosInf else NegInf)"
| "fmul NegInf (Fin b) = (if b = 0 then NaN else if 0 < b then NegInf else PosInf)"
| "fmul PosInf PosInf = PosInf"
| "fmul PosInf NegInf = NegInf"
| "fmul NegInf PosInf = NegInf"
| "fmul NegInf NegInf = PosInf"

text \<open>
  IEEE division, as numpy and torch perform it: a zero divisor gives an infinity or
  NaN and raises nothing.  Every zero divisor of the code is a count, a positive zero.
\<close>

fun fdiv :: "pyfloat \<Rightarrow> pyfloat \<Rightarrow> pyfloat" where
  "fdiv (Fin a) (Fin b) =
     (if b = 0 then (if a = 0 then NaN else if 0 < a then PosInf else NegInf)
      else Fin (a / b))"
| "fdiv NaN y = NaN"
| "fdiv x NaN = NaN"
| "fdiv (Fin a) PosInf = Fin 0"
| "fdiv (Fin a) NegInf = Fin 0"
| "fdiv PosInf (Fin b) = (if 0 \<le> b then PosInf else NegInf)"
| "fdiv NegInf (Fin b) = (if 0 \<le> b then NegInf else PosInf)"
| "fdiv PosInf y = NaN"
| "fdiv NegInf y = NaN"

fun fsqrt :: "pyfloat \<Rightarrow> pyfloat" where
  "fsqrt (Fin a) = (if a < 0 then NaN else Fin (sqrt a))"
| "fsqrt PosInf = PosInf"
| "fsqrt NegInf = NaN"
| "fsqrt NaN = NaN"


text \<open>Summation from zero, left to right (Python's \<open>sum\<close>, numpy's and torch's \<open>sum\<close>).\<close>

definition fsum :: "pyfloat list \<Rightarrow> pyfloat" where
  "fsum xs = foldl fadd (Fin 0) xs"

text \<open>
  Python's own true division \<open>x / n\<close> by an integer \<open>n\<close>: it raises
  \<open>ZeroDivisionError\<close> on \<open>n = 0\<close>.
\<close>

definition py_truediv :: "pyfloat \<Rightarrow> nat \<Rightarrow> error + pyfloat" where
  "py_truediv x n = (if n = 0 then Inl ZeroDivisionError else Inr (fdiv x (Fin (real n))))"

section \<open>Rounding to double precision\<close>

text \<open>
  Where an integer is read off a floating point product (the number of masks), the
  rounding of that product is modelled: a double is a real number that rounding to 53
  significant bits, to nearest with ties to the even significand, leaves unchanged,
  and an operation on doubles returns the rounded exact result.  The exponent range is
  not bounded: overflow and gradual underflow are not modelled.
\<close>

definition pow2 :: "int \<Rightarrow> real" where
  "pow2 e = (if 0 \<le> e then 2 ^ nat e else 1 / 2 ^ nat (- e))"

text \<open>The exponent \<open>e\<close> of a positive number: \<open>2 ^ e \<le> x < 2 ^ (e + 1)\<close>.\<close>

definition exponent :: "real \<Rightarrow> int" where
  "exponent x =
     (if 1 \<le> x then int (floorlog 2 (nat \<lfloor>x\<rfloor>)) - 1
      else - int (floorlog 2 (nat (\<lceil>1 / x\<rceil> - 1))))"

text \<open>The nearest integer, the even one of two nearest.\<close>

definition round_even :: "real \<Rightarrow> int" where
  "round_even m =
     (let f = \<lfloor>m\<rfloor>; d = m - of_int f
      in if d < 1/2 then f else if 1/2 < d then f + 1 else if even f then f else f + 1)"

text \<open>
  With exponent \<open>e\<close> the doubles around \<open>x\<close> are the multiples of \<open>2 ^ (e - 52)\<close>.
\<close>

definition round_double :: "real \<Rightarrow> real" where
  "round_double x =
     (if x = 0 then 0
      else let e = exponent \<bar>x\<bar>; ulp = pow2 (e - 52)
           in sgn x * of_int (round_even (\<bar>x\<bar> / ulp)) * ulp)"

typedef double = "{x :: real. round_double x = x}"
  by (rule exI [of _ 0]) (simp add: round_double_def)

text \<open>
  A decimal literal such as \<open>0.15\<close> denotes the double nearest to it;
  \<open>Rep_double\<close> is the exact value of a double.
\<close>

definition double_of :: "real \<Rightarrow> double" where
  "double_of x = Abs_double (round_double x)"

instantiation double :: "{zero, one, ord}"
begin
definition zero_double :: double where "zero_double = Abs_double 0"
definition one_double :: double where "one_double = Abs_double 1"
definition less_eq_double :: "double \<Rightarrow> double \<Rightarrow> bool" where
  "less_eq_double x y \<longleftrightarrow> Rep_double x \<le> Rep_double y"
definition less_double :: "double \<Rightarrow> double \<Rightarrow> bool" where
  "less_double x y \<longleftrightarrow> Rep_double x < Rep_double y"
instance ..
end

section \<open>Discrepancy Aggregator\<close>

text \<open>
  \<open>compute_detectgpt_discrepancy\<close> without a normalization flag (the second notebook
  and the later cells of the first): a loop over \<open>range(len(log_probs_per_text_base))\<close>
  that indexes the list of perturbed lists, divides \<open>sum(perturbed_log_probs)\<close> by
  \<open>len(perturbed_log_probs)\<close> and appends \<open>original_log_prob - mu\<close>.
\<close>

fun discrepancy_loop :: "pyfloat list \<Rightarrow> pyfloat list list \<Rightarrow> nat \<Rightarrow> error + pyfloat list" where
  "discrepancy_loop [] transformed i = Inr []"
| "discrepancy_loop (original_log_prob # base) transformed i =
     (if length transformed \<le> i then Inl IndexError
      else
        let perturbed_log_probs = transformed ! i;
            num_perturbations = length perturbed_log_probs
        in case py_truediv (fsum perturbed_log_probs) num_perturbations of
             Inl e \<Rightarrow> Inl e
           | Inr mu \<Rightarrow>
               (case discrepancy_loop base transformed (Suc i) of
                  Inl e \<Rightarrow> Inl e
                | Inr ds \<Rightarrow> Inr (fsub original_log_prob mu # ds)))"

definition compute_detectgpt_discrepancy_plain ::
  "pyfloat list \<Rightarrow> pyfloat list list \<Rightarrow> error + pyfloat list" where
  "compute_detectgpt_discrepancy_plain log_probs_per_text_base log_probs_per_text_transformed =
     discrepancy_loop log_probs_per_text_base log_probs_per_text_transformed 0"





section \<open>Python strings\<close>

text \<open>
  A text is a \<open>string\<close>, a list of characters.  Python's whitespace
  (\<open>str.isspace\<close>, which \<open>split()\<close>, \<open>strip()\<close> and the regular expression class
  \<open>\s\<close> all use) is, among the code points below 256: tab, line feed, vertical tab,
  form feed, carriage return, the four separators \<open>0x1C\<close> to \<open>0x1F\<close>, space, next
  line \<open>0x85\<close> and no-break space \<open>0xA0\<close>.
\<close>

definition is_space :: "char \<Rightarrow> bool" where
  "is_space c \<longleftrightarrow>
     c \<in> set [CHR 0x09, CHR 0x0A, CHR 0x0B, CHR 0x0C, CHR 0x0D, CHR 0x1C, CHR 0x1D,
              CHR 0x1E, CHR 0x1F, CHR 0x20, CHR 0x85, CHR 0xA0]"

text \<open>
  \<open>text.split()\<close>: the maximal runs of non-whitespace characters, in order.  The
  first argument holds the characters of the current word, last one first.
\<close>

fun split_from :: "string \<Rightarrow> string \<Rightarrow> string list" where
  "split_from cur [] = (if cur = [] then [] else [rev cur])"
| "split_from cur (c # cs) =
     (if is_space c then (if cur = [] then split_from [] cs else rev cur # split_from [] cs)
      else split_from (c # cur) cs)"

definition py_split :: "string \<Rightarrow> string list" where
  "py_split text = split_from [] text"

text \<open>\<open>sep.join(words)\<close>.\<close>

fun join :: "string \<Rightarrow> string list \<Rightarrow> string" where
  "join sep [] = []"
| "join sep [w] = w"
| "join sep (w # v # ws) = w @ sep @ join sep (v # ws)"

text \<open>\<open>text.strip()\<close>.\<close>

definition strip :: "string \<Rightarrow> string" where
  "strip s = rev (dropWhile is_space (rev (dropWhile is_space s)))"

text \<open>The decimal digits of a natural number, as an f-string prints an \<open>int\<close>.\<close>

definition digit_char :: "nat \<Rightarrow> char" where
  "digit_char d = ''0123456789'' ! d"

fun str_nat :: "nat \<Rightarrow> string" where
  "str_nat n = (if n < 10 then [digit_char n] else str_nat (n div 10) @ [digit_char (n mod 10)])"

declare str_nat.simps [simp del]

text \<open>The placeholder marker of index \<open>i\<close>, \<open>f"<extra_id_{i}>"\<close>.\<close>

definition marker :: "nat \<Rightarrow> string" where
  "marker i = ''<extra_id_'' @ str_nat i @ ''>''"

text \<open>
  \<open>s.count(sub)\<close>: the number of non-overlapping occurrences of \<open>sub\<close>, found from
  left to right (\<open>len(s) + 1\<close> for the empty \<open>sub\<close>).
\<close>

function count_sub :: "string \<Rightarrow> string \<Rightarrow> nat" where
  "count_sub sub s =
     (if sub = [] then length s + 1
      else if s = [] then 0
      else if prefix sub s then 1 + count_sub sub (drop (length sub) s)
      else count_sub sub (tl s))"
  by pat_completeness auto
termination
  by (relation "measure (\<lambda>(sub, s). length s)") auto

declare count_sub.simps [simp del]

text \<open>
  \<open>s.replace(old, new, 1)\<close>: the leftmost occurrence of \<open>old\<close> replaced by \<open>new\<close>;
  \<open>s\<close> itself when \<open>old\<close> does not occur.
\<close>

fun replace_first :: "string \<Rightarrow> string \<Rightarrow> string \<Rightarrow> string" where
  "replace_first old new [] = (if old = [] then new else [])"
| "replace_first old new (c # cs) =
     (if prefix old (c # cs) then new @ drop (length old) (c # cs)
      else c # replace_first old new cs)"

text \<open>
  \<open>s.replace(old, new)\<close>: every occurrence, non-overlapping, from left to right.  For
  the empty \<open>old\<close> Python puts \<open>new\<close> before every character and at the end.
\<close>

function replace_all :: "string \<Rightarrow> string \<Rightarrow> string \<Rightarrow> string" where
  "replace_all old new s =
     (if old = [] then new @ concat (map (\<lambda>c. c # new) s)
      else if s = [] then []
      else if prefix old s then new @ replace_all old new (drop (length old) s)
      else hd s # replace_all old new (tl s))"
  by pat_completeness auto
termination
  by (relation "measure (\<lambda>(old, new, s). length s)") auto

declare replace_all.simps [simp del]

section \<open>Span Masker\<close>

text \<open>
  \<open>batch_mask_text\<close> splits a text into words, keeps the first \<open>max_words\<close> of them,
  computes \<open>num_masks = int(len(words) * mask_ratio)\<close>, draws that many distinct
  indices below \<open>len(words) - 1\<close>, sorts them in descending order and, for the \<open>i\<close>-th
  index \<open>idx\<close>, overwrites \<open>words[idx]\<close> with marker \<open>i\<close> and deletes
  \<open>words[idx + 1]\<close> when it exists.
\<close>

text \<open>The slice \<open>xs[:k]\<close>; a negative \<open>k\<close> counts from the end.\<close>

definition py_take :: "int \<Rightarrow> 'a list \<Rightarrow> 'a list" where
  "py_take k xs = (if 0 \<le> k then take (nat k) xs else take (nat (int (length xs) + k)) xs)"

definition truncate_words :: "int \<Rightarrow> string list \<Rightarrow> string list" where
  "truncate_words max_words words =
     (if max_words < int (length words) then py_take max_words words else words)"

text \<open>\<open>int(x)\<close> of a float: truncation towards zero.\<close>

definition py_int :: "real \<Rightarrow> int" where
  "py_int x = (if 0 \<le> x then \<lfloor>x\<rfloor> else \<lceil>x\<rceil>)"

text \<open>
  \<open>int(len(words) * mask_ratio)\<close>: the length is converted to a double, the product of
  the two doubles is rounded, and \<open>int\<close> truncates the rounded product.
\<close>

definition num_masks_of :: "string list \<Rightarrow> double \<Rightarrow> int" where
  "num_masks_of words mask_ratio =
     py_int (round_double (round_double (real (length words)) * Rep_double mask_ratio))"

text \<open>
  The random draw is an argument of the model: \<open>draw\<close> is the list of indices the
  generator returns when the sampler accepts its arguments.  The samplers themselves
  check their arguments first.  \<open>np.random.choice(a, k, replace=False)\<close> raises
  \<open>ValueError\<close> for a negative \<open>k\<close>, for \<open>a \<le> 0\<close> unless no sample is taken, and for
  \<open>k > a\<close>; \<open>random.sample(range(n), k)\<close> raises \<open>ValueError\<close> unless
  \<open>0 \<le> k \<le> len(range(n))\<close>.
\<close>

definition np_random_choice :: "int \<Rightarrow> int \<Rightarrow> nat list \<Rightarrow> error + nat list" where
  "np_random_choice a k draw =
     (if k < 0 \<or> (a \<le> 0 \<and> k \<noteq> 0) \<or> a < k then Inl ValueError else Inr draw)"

definition random_sample :: "int \<Rightarrow> int \<Rightarrow> nat list \<Rightarrow> error + nat list" where
  "random_sample n k draw = (if 0 \<le> k \<and> k \<le> max n 0 then Inr draw else Inl ValueError)"

text \<open>What a sampler can return: \<open>k\<close> distinct indices below \<open>n\<close>.\<close>

definition valid_draw :: "int \<Rightarrow> int \<Rightarrow> nat list \<Rightarrow> bool" where
  "valid_draw n k draw \<longleftrightarrow>
     int (length draw) = k \<and> distinct draw \<and> list_all (\<lambda>idx. int idx < n) draw"

text \<open>
  The masking loop \<open>for i, idx in enumerate(mask_indices)\<close>, from placeholder index
  \<open>i\<close> on.  An assignment to \<open>words[idx]\<close> beyond the end raises \<open>IndexError\<close>.
\<close>

fun apply_masks :: "nat \<Rightarrow> nat list \<Rightarrow> string list \<Rightarrow> error + string list" where
  "apply_masks i [] words = Inr words"
| "apply_masks i (idx # mask_indices) words =
     (if length words \<le> idx then Inl IndexError
      else
        let words1 = words[idx := marker i];
            words2 = (if idx + 1 < length words1
                      then take (idx + 1) words1 @ drop (idx + 2) words1 else words1)
        in apply_masks (Suc i) mask_indices words2)"

text \<open>
  One text, in the first notebook's first cell: sampling with numpy, only when
  \<open>num_masks > 0\<close>.
\<close>

definition mask_text_np :: "double \<Rightarrow> int \<Rightarrow> string \<Rightarrow> nat list \<Rightarrow> error + string" where
  "mask_text_np mask_ratio max_words text draw =
     (let words = truncate_words max_words (py_split text);
          num_masks = num_masks_of words mask_ratio
      in if 0 < num_masks then
           (case np_random_choice (int (length words) - 1) num_masks draw of
              Inl e \<Rightarrow> Inl e
            | Inr chosen \<Rightarrow>
                (case apply_masks 0 (rev (sort chosen)) words of
                   Inl e \<Rightarrow> Inl e
                 | Inr masked \<Rightarrow> Inr (join '' '' masked)))
         else Inr (join '' '' words))"

text \<open>
  One text, in the second notebook and the later cells of the first: sampling with
  \<open>random.sample\<close>, unconditionally.
\<close>

definition mask_text_rs :: "double \<Rightarrow> int \<Rightarrow> string \<Rightarrow> nat list \<Rightarrow> error + string" where
  "mask_text_rs mask_ratio max_words text draw =
     (let words = truncate_words max_words (py_split text);
          num_masks = num_masks_of words mask_ratio
      in case random_sample (int (length words) - 1) num_masks draw of
           Inl e \<Rightarrow> Inl e
         | Inr chosen \<Rightarrow>
             (case apply_masks 0 (rev (sort chosen)) words of
                Inl e \<Rightarrow> Inl e
              | Inr masked \<Rightarrow> Inr (join '' '' masked)))"

text \<open>
  A loop that appends one result per element and is left by the first exception.
\<close>

fun collect :: "(error + 'a) list \<Rightarrow> error + 'a list" where
  "collect [] = Inr []"
| "collect (Inl e # rs) = Inl e"
| "collect (Inr x # rs) = (case collect rs of Inl e \<Rightarrow> Inl e | Inr xs \<Rightarrow> Inr (x # xs))"

text \<open>The batch: \<open>draws k\<close> is the draw for the \<open>k\<close>-th text.\<close>

definition batch_mask_text_np ::
  "string list \<Rightarrow> double \<Rightarrow> int \<Rightarrow> (nat \<Rightarrow> nat list) \<Rightarrow> error + string list" where
  "batch_mask_text_np texts mask_ratio max_words draws =
     collect (map (\<lambda>(k, text). mask_text_np mask_ratio max_words text (draws k))
                  (enumerate 0 texts))"

definition batch_mask_text_rs ::
  "string list \<Rightarrow> double \<Rightarrow> int \<Rightarrow> (nat \<Rightarrow> nat list) \<Rightarrow> error + string list" where
  "batch_mask_text_rs texts mask_ratio max_words draws =
     collect (map (\<lambda>(k, text). mask_text_rs mask_ratio max_words text (draws k))
                  (enumerate 0 texts))"

section \<open>Infill Requester\<close>

text \<open>
  The loop \<open>for i in range(0, len(texts), batch_size)\<close> over the slices
  \<open>texts[i:i+batch_size]\<close>.  \<open>range\<close> raises \<open>ValueError\<close> for a zero step and is
  empty for a negative one.
\<close>

function chunks_of :: "nat \<Rightarrow> 'a list \<Rightarrow> 'a list list" where
  "chunks_of b xs = (if b = 0 \<or> xs = [] then [] else take b xs # chunks_of b (drop b xs))"
  by pat_completeness auto
termination
  by (relation "measure (\<lambda>(b, xs). length xs)") auto

declare chunks_of.simps [simp del]

definition py_chunks :: "int \<Rightarrow> 'a list \<Rightarrow> error + 'a list list" where
  "py_chunks batch_size texts =
     (if batch_size = 0 then Inl ValueError
      else if batch_size < 0 then Inr []
      else Inr (chunks_of (nat batch_size) texts))"

text \<open>\<open>max(xs)\<close> of a list: \<open>ValueError\<close> on the empty list.\<close>

definition py_max :: "nat list \<Rightarrow> error + nat" where
  "py_max xs = (case xs of [] \<Rightarrow> Inl ValueError | x # rest \<Rightarrow> Inr (fold max rest x))"

text \<open>
  The T5 tokenizer is a parameter: \<open>encode\<close> maps a string to its token ids, and
  \<open>encode(s)[0]\<close> raises \<open>IndexError\<close> on an empty encoding.
\<close>

definition first_token :: "(string \<Rightarrow> nat list) \<Rightarrow> string \<Rightarrow> error + nat" where
  "first_token encode s = (case encode s of [] \<Rightarrow> Inl IndexError | t # rest \<Rightarrow> Inr t)"

text \<open>
  The stop token of one chunk.  First notebook, first cell:
  \<open>encode(f"<extra_id_{max(n_expected)}>")[0] if n_expected else eos_token_id\<close>, where
  \<open>n_expected\<close> is the list of the per-text counts of \<open>"<extra_id_"\<close>.
\<close>

definition stop_id_guarded :: "(string \<Rightarrow> nat list) \<Rightarrow> nat \<Rightarrow> string list \<Rightarrow> error + nat" where
  "stop_id_guarded encode eos_token_id batch_texts =
     (let n_expected = map (count_sub ''<extra_id_'') batch_texts
      in if n_expected \<noteq> [] then
           (case py_max n_expected of
              Inl e \<Rightarrow> Inl e
            | Inr m \<Rightarrow> first_token encode (marker m))
         else Inr eos_token_id)"

text \<open>The other cells: \<open>encode(f"<extra_id_{max(n_expected)}>")[0]\<close>, with no fallback.\<close>

definition stop_id_unguarded :: "(string \<Rightarrow> nat list) \<Rightarrow> string list \<Rightarrow> error + nat" where
  "stop_id_unguarded encode batch_texts =
     (let n_expected = map (count_sub ''<extra_id_'') batch_texts
      in case py_max n_expected of
           Inl e \<Rightarrow> Inl e
         | Inr m \<Rightarrow> first_token encode (marker m))"

text \<open>
  \<open>batch_replace_masks\<close>: per chunk the stop token is computed and handed to the infill
  model; \<open>generate\<close> stands for tokenization, sampling and decoding of one chunk.
\<close>

definition batch_replace_masks ::
  "(string \<Rightarrow> nat list) \<Rightarrow> nat \<Rightarrow> (string list \<Rightarrow> nat \<Rightarrow> string list) \<Rightarrow>
   string list \<Rightarrow> int \<Rightarrow> error + string list" where
  "batch_replace_masks encode eos_token_id generate texts batch_size =
     (case py_chunks batch_size texts of
        Inl e \<Rightarrow> Inl e
      | Inr chunks \<Rightarrow>
          (case collect (map (\<lambda>batch_texts.
                   case stop_id_guarded encode eos_token_id batch_texts of
                     Inl e \<Rightarrow> Inl e
                   | Inr stop_id \<Rightarrow> Inr (generate batch_texts stop_id)) chunks) of
             Inl e \<Rightarrow> Inl e
           | Inr all_outputs \<Rightarrow> Inr (concat all_outputs)))"

section \<open>Fill Applier\<close>

text \<open>
  \<open>for i, fill in enumerate(fills): text = text.replace(f"<extra_id_{i}>", fill, 1)\<close>,
  from index \<open>i\<close> on.
\<close>

fun replace_masks_from :: "nat \<Rightarrow> string \<Rightarrow> string list \<Rightarrow> string" where
  "replace_masks_from i text [] = text"
| "replace_masks_from i text (fill # fills) =
     replace_masks_from (Suc i) (replace_first (marker i) fill text) fills"

definition replace_masks :: "string \<Rightarrow> string list \<Rightarrow> string" where
  "replace_masks text fills = replace_masks_from 0 text fills"

definition apply_extracted_fills :: "string \<Rightarrow> string list \<Rightarrow> string" where
  "apply_extracted_fills masked_text fills =
     (if fills = [] then masked_text else replace_masks masked_text fills)"

definition batch_apply_extracted_fills :: "string list \<Rightarrow> string list list \<Rightarrow> string list" where
  "batch_apply_extracted_fills masked_texts extracted_fills =
     map (\<lambda>(masked_text, fills). apply_extracted_fills masked_text fills)
         (zip masked_texts extracted_fills)"

text \<open>
  The Applier in the words of the specification.  \<open>first_occurrence sub s\<close> is the
  least index at which \<open>sub\<close> occurs in \<open>s\<close>, if there is one.  Starting from the
  masked text, the fill of index \<open>i\<close> replaces the first occurrence of marker \<open>i\<close> in
  the working text, and changes nothing when that marker does not occur.
\<close>

fun first_occurrence :: "string \<Rightarrow> string \<Rightarrow> nat option" where
  "first_occurrence sub [] = (if sub = [] then Some 0 else None)"
| "first_occurrence sub (c # cs) =
     (if prefix sub (c # cs) then Some 0 else map_option Suc (first_occurrence sub cs))"

definition spec_fill_step :: "string \<Rightarrow> nat \<times> string \<Rightarrow> string" where
  "spec_fill_step working = (\<lambda>(i, fill).
     case first_occurrence (marker i) working of
       None \<Rightarrow> working
     | Some k \<Rightarrow> take k working @ fill @ drop (k + length (marker i)) working)"

definition spec_apply_fills :: "string \<Rightarrow> string list \<Rightarrow> string" where
  "spec_apply_fills masked_text fills = foldl spec_fill_step masked_text (enumerate 0 fills)"

section \<open>Fill Extractor\<close>

text \<open>
  \<open>re.findall(r"<extra_id_\d+>\s*(.*?)\s*(?=<extra_id_\d+>|$)", text)\<close>, read as the
  backtracking matcher of Python's \<open>re\<close> runs it.  \<open>\d\<close> is a decimal digit, \<open>\s\<close> a
  whitespace character, \<open>.\<close> any character but the line feed, and \<open>$\<close> holds at the
  end of the string and before a line feed that ends the string.
\<close>

definition is_digit :: "char \<Rightarrow> bool" where
  "is_digit c \<longleftrightarrow> c \<in> set ''0123456789''"

text \<open>
  \<open><extra_id_\d+>\<close> at the start of \<open>s\<close>: the rest of \<open>s\<close> after the marker.  The
  greedy \<open>\d+\<close> takes all digits; giving one back never helps, since \<open>>\<close> must follow.
\<close>

definition at_marker :: "string \<Rightarrow> string option" where
  "at_marker s =
     (if prefix ''<extra_id_'' s then
        (let r = drop 10 s; digits = takeWhile is_digit r; r' = dropWhile is_digit r
         in if digits \<noteq> [] \<and> r' \<noteq> [] \<and> hd r' = CHR ''>'' then Some (tl r') else None)
      else None)"

text \<open>The lookahead \<open>(?=<extra_id_\d+>|$)\<close>.\<close>

definition lookahead :: "string \<Rightarrow> bool" where
  "lookahead s \<longleftrightarrow> at_marker s \<noteq> None \<or> s = [] \<or> s = [CHR 0x0A]"

text \<open>
  The second \<open>\s*\<close> followed by the lookahead: the greedy star first takes a
  whitespace character and goes on, and stops before it only when that fails.  The
  result is the rest of the string where the match ends.
\<close>

fun trailing_ws :: "string \<Rightarrow> string option" where
  "trailing_ws [] = (if lookahead [] then Some [] else None)"
| "trailing_ws (c # cs) =
     (if is_space c then
        (case trailing_ws cs of
           Some r \<Rightarrow> Some r
         | None \<Rightarrow> if lookahead (c # cs) then Some (c # cs) else None)
      else if lookahead (c # cs) then Some (c # cs) else None)"

text \<open>
  The group \<open>(.*?)\<close> followed by the rest of the pattern: the lazy star first tries
  to stop, and takes one more character (not a line feed) only when that fails.
  \<open>acc\<close> holds the characters captured so far, last one first.
\<close>

fun lazy_capture :: "string \<Rightarrow> string \<Rightarrow> (string \<times> string) option" where
  "lazy_capture acc [] =
     (case trailing_ws [] of Some r \<Rightarrow> Some (rev acc, r) | None \<Rightarrow> None)"
| "lazy_capture acc (c # cs) =
     (case trailing_ws (c # cs) of
        Some r \<Rightarrow> Some (rev acc, r)
      | None \<Rightarrow> if c = CHR 0x0A then None else lazy_capture (c # acc) cs)"

text \<open>The first \<open>\s*\<close>, greedy, followed by the rest of the pattern.\<close>

fun leading_ws :: "string \<Rightarrow> (string \<times> string) option" where
  "leading_ws [] = lazy_capture [] []"
| "leading_ws (c # cs) =
     (if is_space c then
        (case leading_ws cs of
           Some m \<Rightarrow> Some m
         | None \<Rightarrow> lazy_capture [] (c # cs))
      else lazy_capture [] (c # cs))"

text \<open>A match of the whole pattern at the start of \<open>s\<close>: the captured group and the rest.\<close>

definition match_here :: "string \<Rightarrow> (string \<times> string) option" where
  "match_here s = (case at_marker s of None \<Rightarrow> None | Some r \<Rightarrow> leading_ws r)"

text \<open>
  \<open>findall\<close> scans from the left: where the pattern matches it records the group and
  goes on after the match, elsewhere it moves one character on.  A match is never
  empty, so what is left after it is shorter (lemma \<open>match_here_shorter\<close>); the test
  on the lengths is always true and makes the termination evident.
\<close>

fun findall :: "string \<Rightarrow> string list" where
  "findall [] = []"
| "findall (c # cs) =
     (case match_here (c # cs) of
        Some (fill, rest) \<Rightarrow> fill # (if length rest \<le> length cs then findall rest else [])
      | None \<Rightarrow> findall cs)"

text \<open>
  \<open>batch_extract_fills\<close>: the literals \<open><pad>\<close> and \<open></s>\<close> are removed and the text is
  stripped before the search.  The first notebook's first cell returns the groups as
  they are, the other cells strip each of them.
\<close>

definition clean_output :: "string \<Rightarrow> string" where
  "clean_output raw = strip (replace_all ''</s>'' '''' (replace_all ''<pad>'' '''' raw))"

definition batch_extract_fills_plain :: "string list \<Rightarrow> string list list" where
  "batch_extract_fills_plain texts = map (\<lambda>raw. findall (clean_output raw)) texts"

definition batch_extract_fills :: "string list \<Rightarrow> string list list" where
  "batch_extract_fills texts = map (\<lambda>raw. map strip (findall (clean_output raw))) texts"

text \<open>A string that holds a placeholder marker \<open><extra_id_\d+>\<close> somewhere.\<close>

fun has_marker :: "string \<Rightarrow> bool" where
  "has_marker [] = False"
| "has_marker (c # cs) \<longleftrightarrow> at_marker (c # cs) \<noteq> None \<or> has_marker cs"

text \<open>
  A string made of placeholder markers, each followed by a text: the pairs are the
  digits of a marker and the text after it.
\<close>

definition marked_segments :: "(string \<times> string) list \<Rightarrow> string" where
  "marked_segments segs = concat (map (\<lambda>(ds, t). ''<extra_id_'' @ ds @ ''>'' @ t) segs)"

section \<open>Log-Probability Scorer\<close>

text \<open>
  The tokenizer, the scoring model and the cross entropy of one position are
  parameters.  The tokenizer maps a sub-batch of texts to padded token ids and an
  attention mask of zeros and ones, one row per text; the model maps both to one logit
  vector (of type \<open>'l\<close>) per row and position; \<open>cross_entropy logit target\<close> is the
  negative log-likelihood of token \<open>target\<close> under the logit vector.
\<close>

record encoding =
  input_ids :: "nat list list"
  attention_mask :: "nat list list"

text \<open>
  \<open>CrossEntropyLoss(reduction='none', ignore_index=pad_token_id)\<close>: the loss of a
  position whose target is the ignored index is zero.
\<close>

definition loss_fct :: "nat \<Rightarrow> ('l \<Rightarrow> nat \<Rightarrow> pyfloat) \<Rightarrow> 'l \<Rightarrow> nat \<Rightarrow> pyfloat" where
  "loss_fct ignore_index cross_entropy logit target =
     (if target = ignore_index then Fin 0 else cross_entropy logit target)"

text \<open>
  The shift: \<open>logits[..., :-1, :]\<close> drops the last position of every row,
  \<open>input_ids[..., 1:]\<close> and \<open>attention_mask[..., 1:]\<close> drop the first one.  The loss of
  row \<open>j\<close> at position \<open>t\<close> compares the logits at \<open>t\<close> with the token at \<open>t + 1\<close>.
\<close>

definition loss_per_token_of ::
  "nat \<Rightarrow> ('l \<Rightarrow> nat \<Rightarrow> pyfloat) \<Rightarrow> 'l list list \<Rightarrow> nat list list \<Rightarrow> pyfloat list list" where
  "loss_per_token_of pad_token_id cross_entropy logits ids =
     (let shift_logits = map butlast logits;
          shift_labels = map (drop 1) ids
      in map2 (\<lambda>row_logits row_labels. map2 (loss_fct pad_token_id cross_entropy) row_logits row_labels)
           shift_logits shift_labels)"

text \<open>
  The reduction of the first notebook's first cell:
  \<open>(loss_per_token * shift_mask).sum(dim=1) / valid_token_counts.clamp(min=1)\<close>,
  negated, and overwritten by \<open>-inf\<close> where \<open>valid_token_counts == 0\<close>.
\<close>

definition sample_log_prob_clamp :: "pyfloat list \<Rightarrow> nat list \<Rightarrow> pyfloat" where
  "sample_log_prob_clamp losses row_mask =
     (let valid_token_count = sum_list row_mask;
          masked_loss = fdiv (fsum (map2 (\<lambda>l m. fmul l (Fin (real m))) losses row_mask))
                             (Fin (real (max valid_token_count 1)));
          sample_log_prob = fneg masked_loss
      in if valid_token_count = 0 then NegInf else sample_log_prob)"


text \<open>
  One sub-batch: from the tensors of the tokenizer and the model to the list of
  log-probabilities, and from the texts to the tensors.
\<close>

definition score_tensors ::
  "(pyfloat list \<Rightarrow> nat list \<Rightarrow> pyfloat) \<Rightarrow> nat \<Rightarrow> ('l \<Rightarrow> nat \<Rightarrow> pyfloat) \<Rightarrow>
   encoding \<Rightarrow> 'l list list \<Rightarrow> pyfloat list" where
  "score_tensors reduce pad_token_id cross_entropy inputs logits =
     (let shift_mask = map (drop 1) (attention_mask inputs);
          loss_per_token = loss_per_token_of pad_token_id cross_entropy logits (input_ids inputs)
      in map2 reduce loss_per_token shift_mask)"

definition score_chunk ::
  "(pyfloat list \<Rightarrow> nat list \<Rightarrow> pyfloat) \<Rightarrow> (string list \<Rightarrow> encoding) \<Rightarrow>
   (nat list list \<Rightarrow> nat list list \<Rightarrow> 'l list list) \<Rightarrow> nat \<Rightarrow> ('l \<Rightarrow> nat \<Rightarrow> pyfloat) \<Rightarrow>
   string list \<Rightarrow> pyfloat list" where
  "score_chunk reduce computation_tokenizer computation_model pad_token_id cross_entropy batch_texts =
     (let inputs = computation_tokenizer batch_texts;
          logits = computation_model (input_ids inputs) (attention_mask inputs)
      in score_tensors reduce pad_token_id cross_entropy inputs logits)"

text \<open>
  \<open>batch_average_log_prob\<close>: the sub-batches \<open>texts[i:i+batch_size]\<close> are scored one
  after the other and \<open>all_log_probs\<close> is extended by each result.  The reduction is
  \<open>sample_log_prob_clamp\<close> in the first notebook's first cell and
  \<open>sample_log_prob_select\<close> in the other cells.
\<close>

definition batch_average_log_prob ::
  "(pyfloat list \<Rightarrow> nat list \<Rightarrow> pyfloat) \<Rightarrow> (string list \<Rightarrow> encoding) \<Rightarrow>
   (nat list list \<Rightarrow> nat list list \<Rightarrow> 'l list list) \<Rightarrow> nat \<Rightarrow> ('l \<Rightarrow> nat \<Rightarrow> pyfloat) \<Rightarrow>
   string list \<Rightarrow> int \<Rightarrow> error + pyfloat list" where
  "batch_average_log_prob reduce computation_tokenizer computation_model pad_token_id cross_entropy
       texts batch_size =
     (case py_chunks batch_size texts of
        Inl e \<Rightarrow> Inl e
      | Inr chunks \<Rightarrow>
          Inr (concat (map (score_chunk reduce computation_tokenizer computation_model
                              pad_token_id cross_entropy) chunks)))"



section \<open>Properties of rounding\<close>

lemma pow2_powr: "pow2 e = 2 powr (of_int e)"
  by (simp add: pow2_def powr_real_of_int inverse_eq_divide)

lemma pow2_pos [simp]: "0 < pow2 e"
  by (simp add: pow2_def)

lemma pow2_nonzero [simp]: "pow2 e \<noteq> 0"
  by (simp add: pow2_def)

lemma pow2_add: "pow2 (a + b) = pow2 a * pow2 b"
  by (simp add: pow2_powr powr_add)

lemma pow2_nat: "pow2 (int n) = 2 ^ n"
  by (simp add: pow2_def)

lemma pow2_neg: "pow2 (- int n) = 1 / 2 ^ n"
  by (cases "n = 0") (simp_all add: pow2_def)

lemma pow2_less_iff: "pow2 a < pow2 b \<longleftrightarrow> a < b"
  by (simp add: pow2_powr)

lemma pow2_diff: "pow2 (a - b) = pow2 a / pow2 b"
  by (simp add: pow2_powr powr_diff)

lemma exponent_bracket:
  assumes "0 < x"
  shows "pow2 (exponent x) \<le> x \<and> x < pow2 (exponent x + 1)"
proof (cases "1 \<le> x")
  case True
  define n where "n = nat \<lfloor>x\<rfloor>"
  have n: "0 < n" "real n \<le> x" "x < real n + 1"
    using True by (simp_all add: n_def)
  define k where "k = floorlog 2 n"
  have b: "2 ^ (k - 1) \<le> n" "n < 2 ^ k"
    using floorlog_bounds [of n 2] n(1) by (simp_all add: k_def)
  have kpos: "0 < k" using n(1) by (simp add: k_def floorlog_def)
  have e: "exponent x = int (k - 1)" "exponent x + 1 = int k"
    using True kpos by (simp_all add: exponent_def n_def k_def)
  have "(2::real) ^ (k - 1) \<le> real n"
    using of_nat_mono [where 'a = real, OF b(1)] by simp
  then have lo: "2 ^ (k - 1) \<le> x" using n(2) by (rule order_trans)
  have "real n + 1 \<le> 2 ^ k"
    using of_nat_mono [where 'a = real, of "n + 1" "2 ^ k"] b(2) by simp
  then have hi: "x < 2 ^ k" using n(3) by linarith
  have "pow2 (exponent x) = 2 ^ (k - 1)" "pow2 (exponent x + 1) = 2 ^ k"
    by (simp only: e(1) pow2_nat, simp only: e(2) pow2_nat)
  then show ?thesis using lo hi by simp
next
  case False
  then have x1: "x < 1" by simp
  define y where "y = 1 / x"
  have y: "1 < y" using assms x1 by (simp add: y_def)
  define c where "c = nat (\<lceil>y\<rceil> - 1)"
  have c: "0 < c" "real c < y" "y \<le> real c + 1"
    using y by (simp_all add: c_def) linarith+
  define k where "k = floorlog 2 c"
  have b: "2 ^ (k - 1) \<le> c" "c < 2 ^ k"
    using floorlog_bounds [of c 2] c(1) by (simp_all add: k_def)
  have kpos: "0 < k" using c(1) by (simp add: k_def floorlog_def)
  have e: "exponent x = - int k" "exponent x + 1 = - int (k - 1)"
    using False kpos by (simp_all add: exponent_def c_def k_def y_def)
  have "(2::real) ^ (k - 1) \<le> real c"
    using of_nat_mono [where 'a = real, OF b(1)] by simp
  then have lo: "2 ^ (k - 1) < y" using c(2) by (rule le_less_trans)
  have "real c + 1 \<le> 2 ^ k"
    using of_nat_mono [where 'a = real, of "c + 1" "2 ^ k"] b(2) by simp
  then have hi: "y \<le> 2 ^ k" using c(3) by linarith
  have 1: "1 / 2 ^ k \<le> x"
    using hi assms by (simp add: y_def field_simps)
  have 2: "x < 1 / 2 ^ (k - 1)"
    using lo assms by (simp add: y_def field_simps)
  have "pow2 (exponent x) = 1 / 2 ^ k" "pow2 (exponent x + 1) = 1 / 2 ^ (k - 1)"
    by (simp only: e(1) pow2_neg, simp only: e(2) pow2_neg)
  then show ?thesis using 1 2 by simp
qed

lemma exponent_unique:
  assumes "0 < x" "pow2 e \<le> x" "x < pow2 (e + 1)"
  shows "exponent x = e"
proof -
  have b: "pow2 (exponent x) \<le> x" "x < pow2 (exponent x + 1)"
    using exponent_bracket [OF assms(1)] by simp_all
  have "pow2 e < pow2 (exponent x + 1)" using assms(2) b(2) by simp
  moreover have "pow2 (exponent x) < pow2 (e + 1)" using assms(3) b(1) by simp
  ultimately show ?thesis by (simp add: pow2_less_iff)
qed

lemma round_even_of_int [simp]: "round_even (of_int k) = k"
  by (simp add: round_even_def)

lemma round_even_floor: "\<lfloor>m\<rfloor> \<le> round_even m \<and> round_even m \<le> \<lfloor>m\<rfloor> + 1"
  by (simp add: round_even_def Let_def)

lemma round_even_ge: "of_int a \<le> m \<Longrightarrow> a \<le> round_even m"
  using round_even_floor [of m] le_floor_iff [of a m] by linarith

lemma round_even_le: "m < of_int b \<Longrightarrow> round_even m \<le> b"
  using round_even_floor [of m] floor_less_iff [of m b] by linarith

lemma round_double_minus: "round_double (- x) = - round_double x"
  by (simp add: round_double_def Let_def sgn_minus)

lemma round_double_pos:
  assumes "0 < x" "pow2 e \<le> x" "x < pow2 (e + 1)"
  shows "round_double x = of_int (round_even (x / pow2 (e - 52))) * pow2 (e - 52)"
  using assms exponent_unique [OF assms] by (simp add: round_double_def Let_def)

lemma round_double_fixes_pos:
  assumes "0 < k" "k < 2 ^ 53"
  shows "round_double (of_int k * pow2 e) = of_int k * pow2 e"
proof -
  define x where "x = real_of_int k * pow2 e"
  define e0 where "e0 = exponent x"
  have xpos: "0 < x" using assms by (simp add: x_def)
  have br: "pow2 e0 \<le> x" "x < pow2 (e0 + 1)"
    using exponent_bracket [OF xpos] by (simp_all add: e0_def)
  have "real_of_int k < 2 ^ 53" using assms(2) by (metis of_int_less_numeral_power_cancel_iff)
  then have "x < 2 ^ 53 * pow2 e" by (simp add: x_def)
  also have "\<dots> = pow2 (53 + e)" using pow2_nat [of 53] by (simp add: pow2_add)
  finally have "pow2 e0 < pow2 (53 + e)" using br(1) by simp
  then have le: "e0 - 52 \<le> e" by (simp add: pow2_less_iff)
  define n where "n = nat (e - (e0 - 52))"
  have "pow2 e = pow2 (int n) * pow2 (e0 - 52)"
    using le by (simp add: n_def pow2_add [symmetric])
  then have e: "pow2 e = 2 ^ n * pow2 (e0 - 52)" by (simp add: pow2_nat)
  have "x / pow2 (e0 - 52) = of_int (k * 2 ^ n)" by (simp add: x_def e)
  then have "round_even (x / pow2 (e0 - 52)) = k * 2 ^ n"
    by (simp only: round_even_of_int)
  then have "round_double x = of_int (k * 2 ^ n) * pow2 (e0 - 52)"
    using round_double_pos [OF xpos br] by simp
  also have "\<dots> = x" by (simp add: x_def e)
  finally show ?thesis by (simp add: x_def)
qed

lemma round_double_fixes:
  assumes "\<bar>k\<bar> < 2 ^ 53"
  shows "round_double (of_int k * pow2 e) = of_int k * pow2 e"
proof -
  consider "k = 0" | "0 < k" | "k < 0" by linarith
  then show ?thesis
  proof cases
    case 1 then show ?thesis by (simp add: round_double_def)
  next
    case 2 then show ?thesis using assms by (simp add: round_double_fixes_pos)
  next
    case 3
    then have "round_double (of_int (- k) * pow2 e) = of_int (- k) * pow2 e"
      using assms by (intro round_double_fixes_pos) simp_all
    then show ?thesis using round_double_minus [of "of_int k * pow2 e"] by simp
  qed
qed

lemma round_double_of_int: "\<bar>k\<bar> < 2 ^ 53 \<Longrightarrow> round_double (of_int k) = of_int k"
  using round_double_fixes [of k 0] by (simp add: pow2_def)

lemma round_double_idem_pos:
  assumes "0 < x"
  shows "round_double (round_double x) = round_double x"
proof -
  define e where "e = exponent x"
  define k where "k = round_even (x / pow2 (e - 52))"
  have br: "pow2 e \<le> x" "x < pow2 (e + 1)"
    using exponent_bracket [OF assms] by (simp_all add: e_def)
  have r: "round_double x = of_int k * pow2 (e - 52)"
    using round_double_pos [OF assms br] by (simp add: k_def)
  have upos: "0 < pow2 (e - 52)" by simp
  have a: "pow2 e = 2 ^ 52 * pow2 (e - 52)"
    using pow2_add [of 52 "e - 52"] pow2_nat [of 52] by simp
  have b: "pow2 (e + 1) = 2 ^ 53 * pow2 (e - 52)"
    using pow2_add [of 53 "e - 52"] pow2_nat [of 53] by (simp add: add.commute)
  have "2 ^ 52 \<le> x / pow2 (e - 52)"
    using br(1) unfolding a by (simp add: pos_le_divide_eq [OF upos])
  moreover have "x / pow2 (e - 52) < 2 ^ 53"
    using br(2) unfolding b by (simp add: pos_divide_less_eq [OF upos])
  ultimately have "of_int (2 ^ 52) \<le> x / pow2 (e - 52)" "x / pow2 (e - 52) < of_int (2 ^ 53)"
    by simp_all
  then have k: "2 ^ 52 \<le> k" "k \<le> 2 ^ 53"
    unfolding k_def using round_even_ge round_even_le by blast+
  show ?thesis
  proof (cases "k = 2 ^ 53")
    case True
    have "round_double x = of_int 1 * pow2 (e + 1)"
      unfolding r True b by simp
    then show ?thesis using round_double_fixes_pos [of 1 "e + 1"] by simp
  next
    case False
    then have "0 < k" "k < 2 ^ 53" using k by simp_all
    then show ?thesis unfolding r by (rule round_double_fixes_pos)
  qed
qed

lemma round_double_idem [simp]: "round_double (round_double x) = round_double x"
proof -
  consider "x = 0" | "0 < x" | "x < 0" by linarith
  then show ?thesis
  proof cases
    case 1 then show ?thesis by (simp add: round_double_def)
  next
    case 2 then show ?thesis by (rule round_double_idem_pos)
  next
    case 3
    then have "round_double (round_double (- x)) = round_double (- x)"
      by (intro round_double_idem_pos) simp
    then show ?thesis by (simp add: round_double_minus)
  qed
qed

lemma Rep_double_fixed [simp]: "round_double (Rep_double d) = Rep_double d"
  using Rep_double [of d] by simp

lemma Rep_double_of [simp]: "Rep_double (double_of x) = round_double x"
  by (simp add: double_of_def Abs_double_inverse)

lemma Rep_double_zero [simp]: "Rep_double 0 = 0"
  by (simp add: zero_double_def Abs_double_inverse round_double_def)

lemma Rep_double_one [simp]: "Rep_double 1 = 1"
  using round_double_of_int [of 1] by (simp add: one_double_def Abs_double_inverse)

lemma round_double_zero [simp]: "round_double 0 = 0"
  by (simp add: round_double_def)

lemma round_double_nat: "n < 2 ^ 53 \<Longrightarrow> round_double (real n) = real n"
  using round_double_of_int [of "int n"] by (simp add: of_nat_less_numeral_power_cancel_iff)

lemma round_double_one [simp]: "round_double 1 = 1"
  using round_double_of_int [of 1] by simp

lemma round_double_dyadic: "round_double (1 / 2 ^ n) = 1 / 2 ^ n"
  using round_double_fixes [of 1 "- int n"] by (cases "n = 0") (simp_all add: pow2_def)

lemma round_double_numeral:
  "(numeral k :: int) < 2 ^ 53 \<Longrightarrow> round_double (numeral k) = numeral k"
  using round_double_of_int [of "numeral k"] by simp

lemma double_less_iff: "x < y \<longleftrightarrow> Rep_double x < Rep_double y" for x y :: double
  by (simp add: less_double_def)

lemma double_le_iff: "x \<le> y \<longleftrightarrow> Rep_double x \<le> Rep_double y" for x y :: double
  by (simp add: less_eq_double_def)

text \<open>The literals of the examples below.\<close>

lemma round_half: "round_double (1/2) = 1/2"
  using round_double_dyadic [of 1] by simp

lemma round_quarter: "round_double (1/4) = 1/4"
  using round_double_dyadic [of 2] by simp

lemma round_eighth: "round_double (1/8) = 1/8"
  using round_double_dyadic [of 3] by simp

lemma round_015: "round_double (15/100) = 5404319552844595 / 2 ^ 55"
  by (subst round_double_pos [of _ "-3"]) (simp_all add: pow2_def round_even_def)

lemma round_0145: "round_double (145/1000) = 5224175567749775 / 2 ^ 55"
  by (subst round_double_pos [of _ "-3"]) (simp_all add: pow2_def round_even_def)

lemma product_20_015: "round_double (20 * (5404319552844595 / 2 ^ 55)) = 3"
  by (subst round_double_pos [of _ 1]) (simp_all add: pow2_def round_even_def)

lemma product_200_0145:
  "round_double (200 * (5224175567749775 / 2 ^ 55)) = 8162774324609023 / 2 ^ 48"
  by (subst round_double_pos [of _ 4]) (simp_all add: pow2_def round_even_def)

lemma Abs_double_code [code abstype]: "Abs_double (Rep_double x) = x"
  by (rule Rep_double_inverse)

lemma double_of_code [code abstract]: "Rep_double (double_of x) = round_double x"
  by simp

lemma zero_double_code [code abstract]: "Rep_double 0 = 0"
  by simp

lemma one_double_code [code abstract]: "Rep_double 1 = 1"
  by simp

section \<open>Properties of the Discrepancy Aggregator\<close>

lemma discrepancy_loop_nonempty:
  "\<forall>k. i \<le> k \<and> k < i + length base \<and> k < length transformed \<longrightarrow> transformed ! k \<noteq> [] \<Longrightarrow>
   discrepancy_loop base transformed i \<noteq> Inl ZeroDivisionError"
proof (induction base arbitrary: i)
  case Nil
  then show ?case by simp
next
  case (Cons b base)
  have ih: "discrepancy_loop base transformed (Suc i) \<noteq> Inl ZeroDivisionError"
    by (rule Cons.IH) (use Cons.prems in auto)
  show ?case
  proof (cases "length transformed \<le> i")
    case True
    then show ?thesis by simp
  next
    case False
    then have "transformed ! i \<noteq> []" using Cons.prems by auto
    then show ?thesis using False ih
      by (auto simp: py_truediv_def Let_def split: sum.splits)
  qed
qed

lemma discrepancy_loop_value:
  "i + length base \<le> length transformed \<Longrightarrow>
   \<forall>k. i \<le> k \<and> k < i + length base \<longrightarrow> transformed ! k \<noteq> [] \<Longrightarrow>
   discrepancy_loop base transformed i =
     Inr (map2 (\<lambda>b p. fsub b (fdiv (fsum p) (Fin (real (length p))))) base (drop i transformed))"
proof (induction base arbitrary: i)
  case Nil
  then show ?case by simp
next
  case (Cons b base)
  have ih: "discrepancy_loop base transformed (Suc i) =
     Inr (map2 (\<lambda>b p. fsub b (fdiv (fsum p) (Fin (real (length p))))) base (drop (Suc i) transformed))"
    by (rule Cons.IH) (use Cons.prems in auto)
  have lt: "i < length transformed" using Cons.prems by simp
  have ne: "transformed ! i \<noteq> []" using Cons.prems by auto
  have dr: "drop i transformed = transformed ! i # drop (Suc i) transformed"
    using lt by (simp add: Cons_nth_drop_Suc)
  show ?case using lt ne ih by (simp add: dr py_truediv_def Let_def)
qed

text \<open>
  Claim C10.  The variant of \<open>compute_detectgpt_discrepancy\<close> without a normalization
  flag divides the sum of each perturbed list by its length, unguarded.  When every
  perturbed list is non-empty the call never ends in \<open>ZeroDivisionError\<close>, and when in
  addition there is a perturbed list for every base value it returns, per text, the base
  value minus sum over length.  Some input with an empty perturbed list makes the call
  fail with \<open>ZeroDivisionError\<close> instead of returning.
\<close>

theorem plain_discrepancy_zero_division:
  "((\<forall>p \<in> set transformed. p \<noteq> []) \<longrightarrow>
      compute_detectgpt_discrepancy_plain base transformed \<noteq> Inl ZeroDivisionError) \<and>
   ((\<forall>p \<in> set transformed. p \<noteq> []) \<and> length base \<le> length transformed \<longrightarrow>
      compute_detectgpt_discrepancy_plain base transformed =
        Inr (map2 (\<lambda>b p. fsub b (fdiv (fsum p) (Fin (real (length p))))) base transformed)) \<and>
   (\<exists>b t. [] \<in> set t \<and> compute_detectgpt_discrepancy_plain b t = Inl ZeroDivisionError)"
proof (intro conjI impI)
  assume ne: "\<forall>p \<in> set transformed. p \<noteq> []"
  then have "\<forall>k. 0 \<le> k \<and> k < 0 + length base \<and> k < length transformed \<longrightarrow> transformed ! k \<noteq> []"
    by simp
  then show "compute_detectgpt_discrepancy_plain base transformed \<noteq> Inl ZeroDivisionError"
    unfolding compute_detectgpt_discrepancy_plain_def by (rule discrepancy_loop_nonempty)
next
  assume h: "(\<forall>p \<in> set transformed. p \<noteq> []) \<and> length base \<le> length transformed"
  then have "\<forall>k. 0 \<le> k \<and> k < 0 + length base \<longrightarrow> transformed ! k \<noteq> []"
    by simp
  with h show "compute_detectgpt_discrepancy_plain base transformed =
      Inr (map2 (\<lambda>b p. fsub b (fdiv (fsum p) (Fin (real (length p))))) base transformed)"
    unfolding compute_detectgpt_discrepancy_plain_def
    using discrepancy_loop_value [of 0 base transformed] by simp
next
  have "[] \<in> set [[]::pyfloat list] \<and>
        compute_detectgpt_discrepancy_plain [Fin (- 2)] [[]] = Inl ZeroDivisionError"
    by (simp add: compute_detectgpt_discrepancy_plain_def py_truediv_def fsum_def)
  then show "\<exists>b t. [] \<in> set t \<and> compute_detectgpt_discrepancy_plain b t = Inl ZeroDivisionError"
    by blast
qed

theorem plain_discrepancy_zero_division_witness:
  "compute_detectgpt_discrepancy_plain [Fin (- 2)] [[Fin (- 3), Fin (- 3), Fin (- 3)]] = Inr [Fin 1] \<and>
   compute_detectgpt_discrepancy_plain [Fin (- 2)] [[Fin (- 3), Fin (- 3), Fin (- 3)]] \<noteq> Inl ZeroDivisionError"
  using plain_discrepancy_zero_division [of "[[Fin (- 3), Fin (- 3), Fin (- 3)]]" "[Fin (- 2)]"]
  by (simp add: fsum_def fsub_def)





section \<open>Properties of placeholder markers\<close>

lemma digit_char_in: "d < 10 \<Longrightarrow> digit_char d \<in> set ''0123456789''"
  unfolding digit_char_def by (rule nth_mem) simp

lemma digit_char_inj: "d < 10 \<Longrightarrow> e < 10 \<Longrightarrow> digit_char d = digit_char e \<Longrightarrow> d = e"
proof -
  assume a: "d < 10" "e < 10" "digit_char d = digit_char e"
  have "distinct ''0123456789''" by simp
  moreover have "d < length ''0123456789''" "e < length ''0123456789''" using a by simp_all
  ultimately show "d = e" using a(3) unfolding digit_char_def
    by (simp only: nth_eq_iff_index_eq)
qed

lemma str_nat_digits: "set (str_nat n) \<subseteq> set ''0123456789''"
proof (induction n rule: str_nat.induct)
  case (1 n)
  show ?case
  proof (cases "n < 10")
    case True
    then show ?thesis using digit_char_in [of n] by (subst str_nat.simps) simp
  next
    case False
    have "n mod 10 < 10" by simp
    then have "digit_char (n mod 10) \<in> set ''0123456789''" by (rule digit_char_in)
    moreover have "set (str_nat (n div 10)) \<subseteq> set ''0123456789''" using "1.IH" False by simp
    ultimately show ?thesis using False by (subst str_nat.simps) simp
  qed
qed

lemma str_nat_nonempty: "str_nat n \<noteq> []"
  by (subst str_nat.simps) simp

lemma str_nat_inj: "str_nat n = str_nat m \<Longrightarrow> n = m"
proof (induction n arbitrary: m rule: str_nat.induct)
  case (1 n)
  show ?case
  proof (cases "n < 10")
    case n: True
    show ?thesis
    proof (cases "m < 10")
      case True
      with n "1.prems" show ?thesis
        by (subst (asm) str_nat.simps, subst (asm) (2) str_nat.simps) (simp add: digit_char_inj)
    next
      case False
      have "length (str_nat n) = 1" using n by (subst str_nat.simps) simp
      moreover have "length (str_nat m) \<ge> 2"
        using False str_nat_nonempty [of "m div 10"]
        by (subst str_nat.simps) (cases "str_nat (m div 10)"; simp)
      ultimately show ?thesis using "1.prems" by simp
    qed
  next
    case n: False
    show ?thesis
    proof (cases "m < 10")
      case True
      have "length (str_nat m) = 1" using True by (subst str_nat.simps) simp
      moreover have "length (str_nat n) \<ge> 2"
        using n str_nat_nonempty [of "n div 10"]
        by (subst str_nat.simps) (cases "str_nat (n div 10)"; simp)
      ultimately show ?thesis using "1.prems" by simp
    next
      case False
      have "str_nat (n div 10) @ [digit_char (n mod 10)] = str_nat (m div 10) @ [digit_char (m mod 10)]"
        using "1.prems" n False by (subst (asm) str_nat.simps, subst (asm) (2) str_nat.simps) simp
      then have a: "str_nat (n div 10) = str_nat (m div 10)" and b: "digit_char (n mod 10) = digit_char (m mod 10)"
        by simp_all
      have "n div 10 = m div 10" using "1.IH" n a by simp
      moreover have "n mod 10 = m mod 10" using b by (simp add: digit_char_inj)
      ultimately show ?thesis by (metis div_mult_mod_eq)
    qed
  qed
qed

lemma marker_inj: "marker i = marker j \<Longrightarrow> i = j"
  by (simp add: marker_def str_nat_inj)

lemma marker_Cons: "marker i = CHR ''<'' # ''extra_id_'' @ str_nat i @ ''>''"
  by (simp add: marker_def)

lemma marker_tail_no_lt: "CHR ''<'' \<notin> set (''extra_id_'' @ str_nat i @ ''>'')"
  using str_nat_digits [of i] by auto

lemma marker_snoc: "marker i = (''<extra_id_'' @ str_nat i) @ ''>''"
  by (simp add: marker_def)

lemma marker_init_no_gt: "CHR ''>'' \<notin> set (''<extra_id_'' @ str_nat i)"
  using str_nat_digits [of i] by auto

lemma marker_nonempty: "marker i \<noteq> []"
  by (simp add: marker_def)

text \<open>A suffix of a marker that starts with \<open><\<close> is the whole marker.\<close>

lemma marker_suffix_lt:
  assumes "suffix xs (marker i)" "xs \<noteq> []" "hd xs = CHR ''<''"
  shows "xs = marker i"
proof -
  from assms(1) obtain ps where m: "marker i = ps @ xs" by (auto simp: suffix_def)
  show ?thesis
  proof (cases ps)
    case Nil
    then show ?thesis using m by simp
  next
    case (Cons p ps')
    then have "''extra_id_'' @ str_nat i @ ''>'' = ps' @ xs"
      using m by (simp add: marker_Cons)
    moreover have "CHR ''<'' \<in> set xs" using assms(2,3) by (cases xs) auto
    ultimately have "CHR ''<'' \<in> set (''extra_id_'' @ str_nat i @ ''>'')"
      by (metis Un_iff set_append)
    then show ?thesis using marker_tail_no_lt by blast
  qed
qed

text \<open>No marker is a proper prefix of another one.\<close>

lemma marker_prefix_eq:
  assumes "prefix (marker i) (marker j)"
  shows "i = j"
proof -
  from assms obtain zs where m: "marker j = marker i @ zs" by (auto simp: prefix_def)
  have "zs = []"
  proof (rule ccontr)
    assume "zs \<noteq> []"
    then obtain ys z where zs: "zs = ys @ [z]" by (metis rev_exhaust)
    have "(''<extra_id_'' @ str_nat j) @ ''>'' = ((''<extra_id_'' @ str_nat i) @ ''>'' @ ys) @ [z]"
      using m zs by (simp add: marker_def)
    then have "''<extra_id_'' @ str_nat j = (''<extra_id_'' @ str_nat i) @ ''>'' @ ys"
      by (simp only: append1_eq_conv)
    then have "CHR ''>'' \<in> set (''<extra_id_'' @ str_nat j)" by simp
    then show False using marker_init_no_gt by blast
  qed
  then show ?thesis using m marker_inj by simp
qed

lemma marker_sublist_eq:
  assumes "sublist (marker j) (marker i)"
  shows "i = j"
proof -
  from assms obtain ps ss where m: "marker i = ps @ marker j @ ss" by (auto simp: sublist_def)
  have "suffix (marker j @ ss) (marker i)" using m by (simp add: suffix_def)
  moreover have "hd (marker j @ ss) = CHR ''<''" by (simp add: marker_Cons)
  ultimately have "marker j @ ss = marker i"
    using marker_suffix_lt [of "marker j @ ss" i] by (simp add: marker_nonempty)
  then have "prefix (marker j) (marker i)" by (metis prefixI)
  then show ?thesis using marker_prefix_eq by blast
qed

text \<open>
  A marker that occurs in a string which starts with a different marker occurs
  after that marker.
\<close>

lemma marker_after_marker:
  assumes "i \<noteq> j" "sublist (marker j) (marker i @ rest)"
  shows "sublist (marker j) rest"
proof -
  from assms(2) consider "sublist (marker j) (marker i)" | "sublist (marker j) rest"
    | xs1 xs2 where "marker j = xs1 @ xs2" "suffix xs1 (marker i)" "prefix xs2 rest"
    by (auto simp: sublist_append)
  then show ?thesis
  proof cases
    case 1
    then show ?thesis using marker_sublist_eq assms(1) by blast
  next
    case 2
    then show ?thesis .
  next
    case 3
    show ?thesis
    proof (cases "xs1 = []")
      case True
      then show ?thesis using 3 by (simp add: prefix_imp_sublist)
    next
      case False
      then have "hd xs1 = CHR ''<''" using 3(1) by (cases xs1) (auto simp: marker_Cons)
      then have "xs1 = marker i" using 3(2) False by (rule marker_suffix_lt [rotated 2])
      then have "prefix (marker i) (marker j)" using 3(1) by (simp add: prefix_def)
      then show ?thesis using marker_prefix_eq assms(1) by blast
    qed
  qed
qed

section \<open>Properties of the Span Masker\<close>

lemma num_masks_short:
  fixes r :: double
  assumes "length words < 2" "0 < r" "r < 1 \<or> words = []"
  shows "num_masks_of words r = 0"
proof (cases "words = []")
  case True
  then show ?thesis by (simp add: num_masks_of_def py_int_def)
next
  case False
  with assms have l: "length words = 1" and r: "r < 1"
    by (auto simp: less_Suc_eq numeral_2_eq_2)
  have "0 < Rep_double r" "Rep_double r < 1" using assms(2) r by (simp_all add: double_less_iff)
  then have "\<lfloor>Rep_double r\<rfloor> = 0" "0 \<le> Rep_double r" by (simp_all add: floor_eq_iff)
  then show ?thesis using l by (simp add: num_masks_of_def py_int_def)
qed

lemma num_masks_all:
  "length words < 2 ^ 53 \<Longrightarrow> num_masks_of words 1 = int (length words)"
  by (simp add: num_masks_of_def py_int_def round_double_nat)

text \<open>
  Claim C5, as amended.  For every text with fewer than two words after truncation and
  every mask ratio strictly between 0 and 1 (or equal to 1, when there is no word at
  all), \<open>num_masks\<close> is 0, nothing is masked and the result is the words joined by
  single spaces: in the numpy variant for any draw, in the \<open>random.sample\<close> variant for
  every draw the sampler can return.
\<close>

theorem short_text_unmasked:
  assumes "length (truncate_words max_words (py_split text)) < 2"
    and "0 < mask_ratio"
    and "mask_ratio < 1 \<or> truncate_words max_words (py_split text) = []"
  shows "num_masks_of (truncate_words max_words (py_split text)) mask_ratio = 0 \<and>
    mask_text_np mask_ratio max_words text draw =
      Inr (join '' '' (truncate_words max_words (py_split text))) \<and>
    (valid_draw (int (length (truncate_words max_words (py_split text))) - 1)
        (num_masks_of (truncate_words max_words (py_split text)) mask_ratio) draw \<longrightarrow>
     mask_text_rs mask_ratio max_words text draw =
       Inr (join '' '' (truncate_words max_words (py_split text))))"
proof -
  have n: "num_masks_of (truncate_words max_words (py_split text)) mask_ratio = 0"
    using assms by (rule num_masks_short)
  show ?thesis
    by (auto simp: n mask_text_np_def mask_text_rs_def random_sample_def valid_draw_def Let_def)
qed

theorem short_text_unmasked_witness:
  "mask_text_np (double_of (1/2)) 370 ''hello'' [] = Inr ''hello'' \<and>
   mask_text_rs (double_of (1/2)) 370 ''hello'' [] = Inr ''hello'' \<and>
   num_masks_of (truncate_words 370 (py_split ''hello'')) (double_of (1/2)) = 0"
proof -
  have w: "truncate_words 370 (py_split ''hello'') = [''hello'']"
    by (simp add: truncate_words_def py_split_def is_space_def)
  have r: "0 < double_of (1/2)" "double_of (1/2) < 1"
    by (simp_all add: double_less_iff round_half)
  show ?thesis
    using short_text_unmasked [of 370 "''hello''" "double_of (1/2)" "[]"] r
    by (simp add: w valid_draw_def)
qed

text \<open>
  The claim as stated includes ratio 1 on a one-word text: there \<open>num_masks\<close> is 1, and
  the sampler raises \<open>ValueError\<close>.
\<close>

theorem short_text_ratio_one_counterexample:
  "length (truncate_words 370 (py_split ''hello'')) < 2 \<and> (0::double) < 1 \<and> (1::double) \<le> 1 \<and>
   num_masks_of (truncate_words 370 (py_split ''hello'')) 1 = 1 \<and>
   mask_text_np 1 370 ''hello'' [] = Inl ValueError \<and>
   mask_text_rs 1 370 ''hello'' [] = Inl ValueError"
proof -
  have w: "truncate_words 370 (py_split ''hello'') = [''hello'']"
    by (simp add: truncate_words_def py_split_def is_space_def)
  have n: "num_masks_of [''hello''] 1 = 1" by (simp add: num_masks_all)
  show ?thesis
    by (simp add: w n mask_text_np_def mask_text_rs_def double_less_iff double_le_iff
        np_random_choice_def random_sample_def Let_def)
qed

text \<open>
  Claim C4, as amended.  For every text where the requested mask count exceeds the
  number of available mask-start positions, \<open>max(L - 1, 0)\<close>, the masker fails: the
  sampler itself rejects its arguments with \<open>ValueError\<close>, in both variants, and that
  error is what the masker raises.
\<close>

theorem too_many_masks_value_error:
  assumes "max (int (length (truncate_words max_words (py_split text))) - 1) 0 <
           num_masks_of (truncate_words max_words (py_split text)) mask_ratio"
  shows "np_random_choice (int (length (truncate_words max_words (py_split text))) - 1)
           (num_masks_of (truncate_words max_words (py_split text)) mask_ratio) draw = Inl ValueError \<and>
    random_sample (int (length (truncate_words max_words (py_split text))) - 1)
           (num_masks_of (truncate_words max_words (py_split text)) mask_ratio) draw = Inl ValueError \<and>
    mask_text_np mask_ratio max_words text draw = Inl ValueError \<and>
    mask_text_rs mask_ratio max_words text draw = Inl ValueError"
proof -
  define n where "n = int (length (truncate_words max_words (py_split text))) - 1"
  define k where "k = num_masks_of (truncate_words max_words (py_split text)) mask_ratio"
  have "n < k" "0 < k" "\<not> k \<le> max n 0" using assms by (auto simp: n_def k_def)
  then show ?thesis
    unfolding mask_text_np_def mask_text_rs_def np_random_choice_def random_sample_def Let_def
      n_def [symmetric] k_def [symmetric]
    by simp
qed

theorem too_many_masks_value_error_witness:
  "max (int (length (truncate_words 370 (py_split ''a b c''))) - 1) 0 <
     num_masks_of (truncate_words 370 (py_split ''a b c'')) 1 \<and>
   mask_text_np 1 370 ''a b c'' [0, 1] = Inl ValueError \<and>
   mask_text_rs 1 370 ''a b c'' [0, 1] = Inl ValueError"
proof -
  have w: "truncate_words 370 (py_split ''a b c'') = [''a'', ''b'', ''c'']"
    by (simp add: truncate_words_def py_split_def is_space_def)
  have n: "num_masks_of [''a'', ''b'', ''c''] 1 = 3"
    by (simp add: num_masks_all)
  show ?thesis
    using too_many_masks_value_error [of 370 "''a b c''" 1 "[0, 1]"] by (simp add: w n)
qed

text \<open>
  The claim as stated asks for an \<open>InvalidMaskRatio\<close> condition: on two words with
  ratio 1 the failure is the sampler's \<open>ValueError\<close>.
\<close>

theorem invalid_mask_ratio_counterexample:
  "int (length (truncate_words 370 (py_split ''a b''))) - 1 <
     num_masks_of (truncate_words 370 (py_split ''a b'')) 1 \<and>
   mask_text_np 1 370 ''a b'' [0] = Inl ValueError \<and>
   mask_text_np 1 370 ''a b'' [0] \<noteq> Inl InvalidMaskRatio \<and>
   mask_text_rs 1 370 ''a b'' [0] = Inl ValueError \<and>
   mask_text_rs 1 370 ''a b'' [0] \<noteq> Inl InvalidMaskRatio"
proof -
  have w: "truncate_words 370 (py_split ''a b'') = [''a'', ''b'']"
    by (simp add: truncate_words_def py_split_def is_space_def)
  have n: "num_masks_of [''a'', ''b''] 1 = 2" by (simp add: num_masks_all)
  show ?thesis
    by (simp add: w n mask_text_np_def mask_text_rs_def
        np_random_choice_def random_sample_def Let_def)
qed

subsection \<open>Counting occurrences\<close>

lemma count_sub_absent:
  "sub \<noteq> [] \<Longrightarrow> \<not> sublist sub s \<Longrightarrow> count_sub sub s = 0"
proof (induction sub s rule: count_sub.induct)
  case (1 sub s)
  show ?case
  proof (cases "s = []")
    case True
    then show ?thesis using "1.prems" by (subst count_sub.simps) simp
  next
    case False
    have np: "\<not> prefix sub s" using "1.prems"(2) by (auto dest: prefix_imp_sublist)
    have "\<not> sublist sub (tl s)" using "1.prems"(2) False
      by (metis list.collapse sublist_Cons_right)
    then have "count_sub sub (tl s) = 0" using "1.IH"(2) "1.prems"(1) False np by simp
    then show ?thesis using "1.prems"(1) False np by (subst count_sub.simps) simp
  qed
qed

lemma prefix_before_space:
  assumes "CHR '' '' \<notin> set sub" "prefix sub (w @ CHR '' '' # rest)"
  shows "prefix sub w"
proof -
  from assms(2) consider "prefix sub w" | us where "sub = w @ us" "prefix us (CHR '' '' # rest)"
    by (auto simp: prefix_append)
  then show ?thesis
  proof cases
    case 1
    then show ?thesis .
  next
    case 2
    show ?thesis
    proof (cases us)
      case Nil
      then show ?thesis using 2(1) by simp
    next
      case (Cons u us')
      then have "u = CHR '' ''" using 2(2) by simp
      then have "CHR '' '' \<in> set sub" using 2(1) Cons by simp
      then show ?thesis using assms(1) by simp
    qed
  qed
qed

lemma count_sub_before_space:
  assumes "sub \<noteq> []" "CHR '' '' \<notin> set sub"
  shows "count_sub sub (w @ CHR '' '' # rest) = count_sub sub w + count_sub sub rest"
proof (induction w rule: length_induct)
  case (1 w)
  show ?case
  proof (cases w)
    case Nil
    have "\<not> prefix sub (CHR '' '' # rest)"
      using assms by (cases sub) auto
    then have "count_sub sub (CHR '' '' # rest) = count_sub sub rest"
      using assms(1) by (subst count_sub.simps) simp
    moreover have "count_sub sub [] = 0" using assms(1) by (subst count_sub.simps) simp
    ultimately show ?thesis using Nil by simp
  next
    case (Cons c w')
    show ?thesis
    proof (cases "prefix sub w")
      case True
      then obtain v where v: "w = sub @ v" by (auto simp: prefix_def)
      have lv: "length v < length w" using v assms(1) by simp
      have p: "prefix sub (w @ CHR '' '' # rest)" using True by (rule prefix_prefix)
      have "count_sub sub (w @ CHR '' '' # rest) =
          1 + count_sub sub (drop (length sub) (w @ CHR '' '' # rest))"
        using assms(1) p Cons by (subst count_sub.simps) simp
      also have "drop (length sub) (w @ CHR '' '' # rest) = v @ CHR '' '' # rest" using v by simp
      also have "count_sub sub (v @ CHR '' '' # rest) = count_sub sub v + count_sub sub rest"
        using "1.IH" lv by blast
      finally have a: "count_sub sub (w @ CHR '' '' # rest) = 1 + count_sub sub v + count_sub sub rest"
        by simp
      have "count_sub sub w = 1 + count_sub sub (drop (length sub) w)"
        using assms(1) True Cons by (subst count_sub.simps) simp
      then have "count_sub sub w = 1 + count_sub sub v" using v by simp
      then show ?thesis using a by simp
    next
      case False
      then have np: "\<not> prefix sub (w @ CHR '' '' # rest)"
        using assms(2) prefix_before_space by blast
      have "count_sub sub (w @ CHR '' '' # rest) = count_sub sub (tl (w @ CHR '' '' # rest))"
        using assms(1) np Cons by (subst count_sub.simps) simp
      also have "tl (w @ CHR '' '' # rest) = w' @ CHR '' '' # rest" using Cons by simp
      also have "count_sub sub (w' @ CHR '' '' # rest) = count_sub sub w' + count_sub sub rest"
        using "1.IH" Cons by simp
      finally have a: "count_sub sub (w @ CHR '' '' # rest) = count_sub sub w' + count_sub sub rest" .
      have "count_sub sub w = count_sub sub (tl w)"
        using assms(1) False Cons by (subst count_sub.simps) simp
      then show ?thesis using a Cons by simp
    qed
  qed
qed

lemma count_sub_join:
  assumes "sub \<noteq> []" "CHR '' '' \<notin> set sub"
  shows "count_sub sub (join '' '' ws) = sum_list (map (count_sub sub) ws)"
proof (induction ws)
  case Nil
  show ?case using assms(1) by (subst count_sub.simps) simp
next
  case (Cons w ws)
  show ?case
  proof (cases ws)
    case Nil
    then show ?thesis by simp
  next
    case (Cons v ws')
    have "join '' '' (w # ws) = w @ CHR '' '' # join '' '' ws" using Cons by simp
    then show ?thesis using count_sub_before_space [OF assms] Cons.IH by simp
  qed
qed


subsection \<open>The masking loop\<close>

lemma sum_list_mask_step:
  fixes c :: "string \<Rightarrow> nat"
  assumes "idx + 2 \<le> length ws" "c (ws ! idx) = 0" "c (ws ! Suc idx) = 0"
  shows "sum_list (map c (take (idx + 1) (ws[idx := m]) @ drop (idx + 2) (ws[idx := m]))) =
         sum_list (map c ws) + c m"
proof -
  have i: "idx < length ws" and j: "Suc idx < length ws" using assms(1) by simp_all
  have a: "take (idx + 1) (ws[idx := m]) = take idx ws @ [m]"
    using i by (simp add: take_Suc_conv_app_nth)
  have b: "drop (idx + 2) (ws[idx := m]) = drop (idx + 2) ws" by simp
  have "ws = take idx ws @ ws ! idx # ws ! Suc idx # drop (idx + 2) ws"
    using i j by (metis Cons_nth_drop_Suc Suc_eq_plus1 add_2_eq_Suc' append_take_drop_id)
  then have "sum_list (map c ws) =
      sum_list (map c (take idx ws)) + c (ws ! idx) + c (ws ! Suc idx) +
      sum_list (map c (drop (idx + 2) ws))"
    by (metis (no_types, lifting) add.assoc list.simps(9) map_append sum_list.Cons sum_list.append)
  then show ?thesis unfolding a b using assms(2,3) by simp
qed

lemma apply_masks_count:
  fixes c :: "string \<Rightarrow> nat"
  assumes "sorted_wrt (\<lambda>a b. b + 2 \<le> a) idxs"
    and "\<forall>idx\<in>set idxs. idx + 2 \<le> bound"
    and "bound \<le> length ws"
    and "\<forall>p<bound. c (ws ! p) = 0"
  shows "\<exists>ws'. apply_masks i idxs ws = Inr ws' \<and> length ws' + length idxs = length ws \<and>
           sum_list (map c ws') =
             sum_list (map c ws) + sum_list (map (\<lambda>j. c (marker j)) [i..<i + length idxs])"
  using assms
proof (induction idxs arbitrary: i ws bound)
  case Nil
  then show ?case by simp
next
  case (Cons idx idxs)
  define ws2 where "ws2 = take (idx + 1) (ws[idx := marker i]) @ drop (idx + 2) (ws[idx := marker i])"
  have ib: "idx + 2 \<le> bound" using Cons.prems(2) by simp
  then have il: "idx + 2 \<le> length ws" using Cons.prems(3) by simp
  have z: "c (ws ! idx) = 0" "c (ws ! Suc idx) = 0" using Cons.prems(4) ib by simp_all
  have step: "apply_masks i (idx # idxs) ws = apply_masks (Suc i) idxs ws2"
    using il by (simp add: ws2_def)
  have s2: "sum_list (map c ws2) = sum_list (map c ws) + c (marker i)"
    unfolding ws2_def using il z by (rule sum_list_mask_step)
  have l2: "length ws2 + 1 = length ws" using il by (simp add: ws2_def)
  have p1: "sorted_wrt (\<lambda>a b. b + 2 \<le> a) idxs" using Cons.prems(1) by simp
  have p2: "\<forall>idx'\<in>set idxs. idx' + 2 \<le> idx" using Cons.prems(1) by simp
  have p3: "idx \<le> length ws2" using l2 il by simp
  have p4: "\<forall>p<idx. c (ws2 ! p) = 0"
  proof (intro allI impI)
    fix p assume p: "p < idx"
    then have "ws2 ! p = ws ! p" using il by (simp add: ws2_def nth_append)
    then show "c (ws2 ! p) = 0" using Cons.prems(4) p ib by simp
  qed
  from Cons.IH [OF p1 p2 p3 p4, of "Suc i"]
  obtain ws' where r: "apply_masks (Suc i) idxs ws2 = Inr ws'"
    "length ws' + length idxs = length ws2"
    "sum_list (map c ws') =
       sum_list (map c ws2) + sum_list (map (\<lambda>j. c (marker j)) [Suc i..<Suc i + length idxs])"
    by blast
  have "i < i + length (idx # idxs)" by simp
  then have "[i..<i + length (idx # idxs)] = i # [Suc i..<i + length (idx # idxs)]"
    by (rule upt_conv_Cons)
  then have u: "[i..<i + length (idx # idxs)] = i # [Suc i..<Suc i + length idxs]"
    by simp
  have "sum_list (map c ws') =
      sum_list (map c ws) + sum_list (map (\<lambda>j. c (marker j)) [i..<i + length (idx # idxs)])"
    unfolding u using r(3) s2 by simp
  moreover have "length ws' + length (idx # idxs) = length ws" using r(2) l2 by simp
  ultimately show ?case using step r(1) by simp
qed

lemma draw_descending:
  assumes "distinct draw" "\<forall>a\<in>set draw. Suc a \<notin> set draw"
  shows "sorted_wrt (\<lambda>a b. b + 2 \<le> a) (rev (sort draw))"
proof -
  have "sorted_wrt (<) (sort draw)" using assms(1) by (simp add: strict_sorted_iff)
  moreover have "x + 2 \<le> y" if "x \<in> set (sort draw)" "y \<in> set (sort draw)" "x < y" for x y
  proof -
    have "y \<noteq> Suc x" using that(1,2) assms(2) by auto
    then show ?thesis using that(3) by simp
  qed
  ultimately have "sorted_wrt (\<lambda>x y. x + 2 \<le> y) (sort draw)"
    by (rule sorted_wrt_mono_rel [rotated])
  then show ?thesis by (simp add: sorted_wrt_rev)
qed


subsection \<open>Words and markers\<close>

lemma split_from_sublist: "w \<in> set (split_from cur s) \<Longrightarrow> sublist w (rev cur @ s)"
proof (induction s arbitrary: cur)
  case Nil
  then show ?case by (simp split: if_splits)
next
  case (Cons c cs)
  show ?case
  proof (cases "is_space c")
    case False
    then have "w \<in> set (split_from (c # cur) cs)" using Cons.prems by simp
    then have "sublist w (rev (c # cur) @ cs)" by (rule Cons.IH)
    then show ?thesis by simp
  next
    case True
    then consider "w = rev cur" | "w \<in> set (split_from [] cs)"
      using Cons.prems by (auto split: if_splits)
    then show ?thesis
    proof cases
      case 1
      then show ?thesis by (simp add: sublist_append)
    next
      case 2
      then have "sublist w (rev [] @ cs)" by (rule Cons.IH)
      then have "sublist w cs" by simp
      then show ?thesis by (simp add: sublist_append sublist_Cons_right)
    qed
  qed
qed

lemma truncate_words_subset: "set (truncate_words max_words ws) \<subseteq> set ws"
  by (auto simp: truncate_words_def py_take_def dest: in_set_takeD)

lemma plain_words:
  assumes "\<not> sublist ''<extra_id_'' text"
    and "w \<in> set (truncate_words max_words (py_split text))"
  shows "\<not> sublist ''<extra_id_'' w"
proof
  assume a: "sublist ''<extra_id_'' w"
  have "w \<in> set (split_from [] text)"
    using assms(2) truncate_words_subset unfolding py_split_def by blast
  then have "sublist w (rev [] @ text)" by (rule split_from_sublist)
  then have "sublist w text" by simp
  with a have "sublist ''<extra_id_'' text" by (rule sublist_order.order_trans)
  then show False using assms(1) by simp
qed

lemma marker_no_space: "CHR '' '' \<notin> set (marker i)"
  using str_nat_digits [of i] by (auto simp: marker_def)

lemma count_sub_self_prefix:
  assumes "sub \<noteq> []"
  shows "count_sub sub (sub @ v) = 1 + count_sub sub v"
  using assms by (subst count_sub.simps) simp

lemma count_prefix_in_marker: "count_sub ''<extra_id_'' (marker j) = 1"
proof -
  have "\<not> sublist ''<extra_id_'' (str_nat j @ ''>'')"
  proof
    assume "sublist ''<extra_id_'' (str_nat j @ ''>'')"
    then have "set ''<extra_id_'' \<subseteq> set (str_nat j @ ''>'')" by (rule set_mono_sublist)
    then have "CHR ''<'' \<in> set (str_nat j @ ''>'')" by auto
    then show False using str_nat_digits [of j] by auto
  qed
  then have "count_sub ''<extra_id_'' (str_nat j @ ''>'') = 0" by (intro count_sub_absent) simp_all
  moreover have "marker j = ''<extra_id_'' @ (str_nat j @ ''>'')" by (simp add: marker_def)
  ultimately show ?thesis using count_sub_self_prefix [of "''<extra_id_''" "str_nat j @ ''>''"]
    by simp
qed

lemma count_marker_in_marker: "count_sub (marker i) (marker j) = (if i = j then 1 else 0)"
proof (cases "i = j")
  case True
  have "count_sub (marker i) [] = 0" using marker_nonempty by (subst count_sub.simps) simp
  then have "count_sub (marker i) (marker i @ []) = 1"
    using count_sub_self_prefix [OF marker_nonempty, of i "[]"] by simp
  then show ?thesis using True by simp
next
  case False
  then have "\<not> sublist (marker i) (marker j)" using marker_sublist_eq by blast
  then have "count_sub (marker i) (marker j) = 0" using marker_nonempty by (intro count_sub_absent)
  then show ?thesis using False by simp
qed

lemma count_marker_in_plain:
  assumes "\<not> sublist ''<extra_id_'' w"
  shows "count_sub (marker i) w = 0"
proof -
  have "sublist ''<extra_id_'' (marker i)" by (simp add: marker_def prefix_imp_sublist)
  then have "\<not> sublist (marker i) w" using assms sublist_order.order_trans by blast
  then show ?thesis using marker_nonempty by (intro count_sub_absent)
qed

lemma sum_list_indicator:
  "sum_list (map (\<lambda>j. if i = j then 1 else 0) [0..<n]) = (if i < n then 1 else (0::nat))"
  by (induction n) auto

lemma sum_list_all_zero: "\<forall>x\<in>set xs. f x = (0::nat) \<Longrightarrow> sum_list (map f xs) = 0"
  by (induction xs) simp_all

lemma distinct_below_length:
  assumes "distinct xs" "\<forall>x\<in>set xs. x < n"
  shows "length xs \<le> n"
proof -
  have "set xs \<subseteq> {..<n}" using assms(2) by auto
  then have "card (set xs) \<le> card {..<n}" by (intro card_mono) simp_all
  then show ?thesis using assms(1) by (simp add: distinct_card)
qed


lemma masked_words_counts:
  assumes plain: "\<forall>w\<in>set ws. \<not> sublist ''<extra_id_'' w"
    and dist: "distinct draw"
    and below: "\<forall>idx\<in>set draw. idx + 2 \<le> length ws"
    and apart: "\<forall>a\<in>set draw. Suc a \<notin> set draw"
  shows "\<exists>masked. apply_masks 0 (rev (sort draw)) ws = Inr masked \<and>
    count_sub ''<extra_id_'' (join '' '' masked) = length draw \<and>
    (\<forall>i. count_sub (marker i) (join '' '' masked) = (if i < length draw then 1 else 0))"
proof -
  let ?idxs = "rev (sort draw)"
  have gaps: "sorted_wrt (\<lambda>a b. b + 2 \<le> a) ?idxs" using dist apart by (rule draw_descending)
  have bnd: "\<forall>idx\<in>set ?idxs. idx + 2 \<le> length ws" using below by simp
  have len: "length ?idxs = length draw" by simp
  have run: "\<exists>ws'. apply_masks 0 ?idxs ws = Inr ws' \<and> length ws' + length ?idxs = length ws \<and>
      sum_list (map c ws') =
        sum_list (map c ws) + sum_list (map (\<lambda>j. c (marker j)) [0..<0 + length ?idxs])"
    if "\<forall>p<length ws. c (ws ! p) = 0" for c :: "string \<Rightarrow> nat"
    using gaps bnd _ that by (rule apply_masks_count) simp
  have z0: "\<forall>p<length ws. count_sub ''<extra_id_'' (ws ! p) = 0"
    using plain by (auto intro!: count_sub_absent)
  from run [OF z0] obtain masked where m: "apply_masks 0 ?idxs ws = Inr masked"
    and s0: "sum_list (map (count_sub ''<extra_id_'') masked) =
        sum_list (map (count_sub ''<extra_id_'') ws) +
        sum_list (map (\<lambda>j. count_sub ''<extra_id_'' (marker j)) [0..<0 + length ?idxs])"
    by blast
  have w0: "sum_list (map (count_sub ''<extra_id_'') ws) = 0"
    using plain by (intro sum_list_all_zero) (auto intro!: count_sub_absent)
  have "sum_list (map (\<lambda>j. count_sub ''<extra_id_'' (marker j)) [0..<n]) = n" for n
    by (induction n) (simp_all add: count_prefix_in_marker)
  then have c0: "sum_list (map (count_sub ''<extra_id_'') masked) = length draw"
    using s0 w0 len by simp
  have total: "count_sub ''<extra_id_'' (join '' '' masked) = length draw"
    using c0 by (simp add: count_sub_join)
  have each: "count_sub (marker i) (join '' '' masked) = (if i < length draw then 1 else 0)" for i
  proof -
    have zi: "\<forall>p<length ws. count_sub (marker i) (ws ! p) = 0"
      using plain by (auto intro!: count_marker_in_plain)
    from run [OF zi] obtain masked' where m': "apply_masks 0 ?idxs ws = Inr masked'"
      and si: "sum_list (map (count_sub (marker i)) masked') =
        sum_list (map (count_sub (marker i)) ws) +
        sum_list (map (\<lambda>j. count_sub (marker i) (marker j)) [0..<0 + length ?idxs])"
      by blast
    have same: "masked' = masked" using m m' by simp
    have wi: "sum_list (map (count_sub (marker i)) ws) = 0"
      using plain by (intro sum_list_all_zero) (auto intro!: count_marker_in_plain)
    have "sum_list (map (count_sub (marker i)) masked) = (if i < length draw then 1 else 0)"
      using si wi len unfolding same by (simp add: count_marker_in_marker sum_list_indicator)
    then show ?thesis using marker_nonempty marker_no_space by (simp add: count_sub_join)
  qed
  show ?thesis using m total each by blast
qed

lemma num_masks_exact:
  fixes mask_ratio :: double
  assumes "length words < 2 ^ 53" "0 \<le> mask_ratio"
    and "round_double (real (length words) * Rep_double mask_ratio) =
         real (length words) * Rep_double mask_ratio"
  shows "num_masks_of words mask_ratio = \<lfloor>real (length words) * Rep_double mask_ratio\<rfloor>"
proof -
  have "0 \<le> Rep_double mask_ratio" using assms(2) by (simp add: double_le_iff)
  then have "0 \<le> real (length words) * Rep_double mask_ratio" by simp
  then show ?thesis
    using assms(1,3) by (simp add: num_masks_of_def py_int_def round_double_nat)
qed

text \<open>
  Claim C3, as amended.  Let the text hold no placeholder literal \<open><extra_id_\<close>, let
  \<open>L\<close> be its number of words after truncation, and let the draw be one the sampler can
  return (\<open>num_masks\<close> distinct positions below \<open>L - 1\<close>) with no two positions
  adjacent.  Then both variants return the same masked text; it holds exactly
  \<open>num_masks\<close> placeholders, where \<open>num_masks\<close> is the truncated rounded product of the
  doubles \<open>L\<close> and \<open>mask_ratio\<close>; every marker of index below that number occurs
  exactly once in it, and no marker of another index occurs.  Where the product of
  \<open>L\<close> and a non-negative ratio is a double itself, that number is \<open>floor(L * r)\<close>.
\<close>

theorem masker_places_markers:
  assumes "\<not> sublist ''<extra_id_'' text"
    and "valid_draw (int (length (truncate_words max_words (py_split text))) - 1)
           (num_masks_of (truncate_words max_words (py_split text)) mask_ratio) draw"
    and "\<forall>a\<in>set draw. Suc a \<notin> set draw"
  shows "\<exists>masked.
    mask_text_np mask_ratio max_words text draw = Inr masked \<and>
    mask_text_rs mask_ratio max_words text draw = Inr masked \<and>
    count_sub ''<extra_id_'' masked =
      nat (py_int (round_double
        (round_double (real (length (truncate_words max_words (py_split text)))) *
         Rep_double mask_ratio))) \<and>
    (\<forall>i. count_sub (marker i) masked =
       (if i < nat (py_int (round_double
           (round_double (real (length (truncate_words max_words (py_split text)))) *
            Rep_double mask_ratio)))
        then 1 else 0)) \<and>
    (length (truncate_words max_words (py_split text)) < 2 ^ 53 \<and> 0 \<le> mask_ratio \<and>
     round_double (real (length (truncate_words max_words (py_split text))) * Rep_double mask_ratio) =
       real (length (truncate_words max_words (py_split text))) * Rep_double mask_ratio \<longrightarrow>
     count_sub ''<extra_id_'' masked =
       nat \<lfloor>real (length (truncate_words max_words (py_split text))) * Rep_double mask_ratio\<rfloor>)"
proof -
  define ws where "ws = truncate_words max_words (py_split text)"
  define k where "k = num_masks_of ws mask_ratio"
  have vd: "int (length draw) = k" "distinct draw" "\<forall>idx\<in>set draw. int idx < int (length ws) - 1"
    using assms(2) unfolding valid_draw_def ws_def k_def by (simp_all add: list_all_iff)
  have kf: "k = py_int (round_double (round_double (real (length ws)) * Rep_double mask_ratio))"
    unfolding k_def by (simp add: num_masks_of_def)
  have nk: "nat k = length draw" using vd(1) by simp
  have ex: "k = \<lfloor>real (length ws) * Rep_double mask_ratio\<rfloor>"
    if "length ws < 2 ^ 53 \<and> 0 \<le> mask_ratio \<and>
        round_double (real (length ws) * Rep_double mask_ratio) = real (length ws) * Rep_double mask_ratio"
    unfolding k_def using that by (intro num_masks_exact) simp_all
  have plain: "\<forall>w\<in>set ws. \<not> sublist ''<extra_id_'' w"
    using assms(1) plain_words unfolding ws_def by blast
  have below: "\<forall>idx\<in>set draw. idx + 2 \<le> length ws" using vd(3) by auto
  from masked_words_counts [OF plain vd(2) below assms(3)]
  obtain masked where m: "apply_masks 0 (rev (sort draw)) ws = Inr masked"
    and total: "count_sub ''<extra_id_'' (join '' '' masked) = length draw"
    and each: "\<forall>i. count_sub (marker i) (join '' '' masked) = (if i < length draw then 1 else 0)"
    by blast
  have "\<forall>x\<in>set draw. x < nat (int (length ws) - 1)" using vd(3) by auto
  with vd(2) have "length draw \<le> nat (int (length ws) - 1)" by (rule distinct_below_length)
  then have kle: "k \<le> max (int (length ws) - 1) 0" "0 \<le> k" using vd(1) by auto
  have rs: "mask_text_rs mask_ratio max_words text draw = Inr (join '' '' masked)"
    unfolding mask_text_rs_def Let_def ws_def [symmetric] k_def [symmetric]
    using kle m by (simp add: random_sample_def)
  have np: "mask_text_np mask_ratio max_words text draw = Inr (join '' '' masked)"
  proof (cases "0 < k")
    case True
    then have "\<not> (k < 0 \<or> (int (length ws) - 1 \<le> 0 \<and> k \<noteq> 0) \<or> int (length ws) - 1 < k)"
      using kle by auto
    then show ?thesis
      unfolding mask_text_np_def Let_def ws_def [symmetric] k_def [symmetric]
      using True m by (simp add: np_random_choice_def)
  next
    case False
    then have "draw = []" using vd(1) kle(2) by simp
    then have "masked = ws" using m by simp
    then show ?thesis
      unfolding mask_text_np_def Let_def ws_def [symmetric] k_def [symmetric]
      using False by simp
  qed
  have fl: "length ws < 2 ^ 53 \<and> 0 \<le> mask_ratio \<and>
      round_double (real (length ws) * Rep_double mask_ratio) = real (length ws) * Rep_double mask_ratio \<longrightarrow>
      count_sub ''<extra_id_'' (join '' '' masked) = nat \<lfloor>real (length ws) * Rep_double mask_ratio\<rfloor>"
    using ex total nk by auto
  show ?thesis
    using np rs total each fl unfolding ws_def [symmetric] kf [symmetric] nk by blast
qed

theorem masker_places_markers_witness:
  "mask_text_np (double_of (1/4)) 370 ''a b c d e f g h'' [1, 4] =
     Inr ''a <extra_id_1> d <extra_id_0> g h'' \<and>
   mask_text_rs (double_of (1/4)) 370 ''a b c d e f g h'' [1, 4] =
     Inr ''a <extra_id_1> d <extra_id_0> g h'' \<and>
   count_sub ''<extra_id_'' ''a <extra_id_1> d <extra_id_0> g h'' = 2 \<and>
   count_sub (marker 0) ''a <extra_id_1> d <extra_id_0> g h'' = 1 \<and>
   count_sub (marker 1) ''a <extra_id_1> d <extra_id_0> g h'' = 1 \<and>
   count_sub (marker 2) ''a <extra_id_1> d <extra_id_0> g h'' = 0 \<and>
   nat \<lfloor>real (length (truncate_words 370 (py_split ''a b c d e f g h''))) *
        Rep_double (double_of (1/4))\<rfloor> = 2"
proof -
  let ?ws = "[''a'', ''b'', ''c'', ''d'', ''e'', ''f'', ''g'', ''h'']"
  have w: "truncate_words 370 (py_split ''a b c d e f g h'') = ?ws"
    by (simp add: truncate_words_def py_split_def is_space_def)
  have n: "num_masks_of ?ws (double_of (1/4)) = 2"
    by (simp add: num_masks_of_def py_int_def round_double_numeral round_quarter)
  have k: "nat (py_int (round_double (round_double (real (length ?ws)) * Rep_double (double_of (1/4))))) = 2"
    using n by (simp add: num_masks_of_def)
  have fl: "nat \<lfloor>real (length ?ws) * Rep_double (double_of (1/4))\<rfloor> = 2"
    by (simp add: round_quarter)
  have h1: "\<not> sublist ''<extra_id_'' ''a b c d e f g h''" by (simp add: sublist_Cons_right)
  have h2: "valid_draw (int (length (truncate_words 370 (py_split ''a b c d e f g h''))) - 1)
      (num_masks_of (truncate_words 370 (py_split ''a b c d e f g h'')) (double_of (1/4))) [1, 4]"
    unfolding w n by (simp add: valid_draw_def)
  have h3: "\<forall>a\<in>set [1, 4::nat]. Suc a \<notin> set [1, 4]" by simp
  have ev: "mask_text_np (double_of (1/4)) 370 ''a b c d e f g h'' [1, 4] =
      Inr ''a <extra_id_1> d <extra_id_0> g h''"
    unfolding mask_text_np_def Let_def w n
    by (simp add: np_random_choice_def marker_def str_nat.simps digit_char_def)
  from masker_places_markers [OF h1 h2 h3]
  obtain masked where m: "mask_text_np (double_of (1/4)) 370 ''a b c d e f g h'' [1, 4] = Inr masked"
    "mask_text_rs (double_of (1/4)) 370 ''a b c d e f g h'' [1, 4] = Inr masked"
    "count_sub ''<extra_id_'' masked = 2"
    "\<forall>i. count_sub (marker i) masked = (if i < 2 then 1 else 0)"
    unfolding w k by blast
  have e: "masked = ''a <extra_id_1> d <extra_id_0> g h''" using m(1) ev by simp
  have "count_sub (marker 0) masked = 1" "count_sub (marker 1) masked = 1"
    "count_sub (marker 2) masked = 0"
    using m(4) by simp_all
  then show ?thesis using m(1,2,3) fl unfolding e w by simp
qed

text \<open>
  The claim as stated covers every text of at least two words, every ratio and every
  draw.  With eight words, ratio 0.25 and the adjacent positions 2 and 3 the second
  mask deletes the first placeholder: one placeholder is left, of index 1.  With ratio
  1 the sampler raises \<open>ValueError\<close>.  A text that already holds \<open><extra_id_0>\<close> ends
  with that marker twice.  The number of placeholders is read off the rounded product:
  twenty words at the default ratio 0.15, a double slightly below 3/20, give three
  placeholders where the exact product has floor 2, and 200 words at 0.145 give
  \<open>num_masks = 28\<close> where \<open>floor(200 * 0.145)\<close> is 29.
\<close>

theorem masker_invariant_counterexample:
  "truncate_words 370 (py_split ''a b c d e f g h'') =
     [''a'', ''b'', ''c'', ''d'', ''e'', ''f'', ''g'', ''h''] \<and>
   \<lfloor>real (length [''a'', ''b'', ''c'', ''d'', ''e'', ''f'', ''g'', ''h'']) * (1/4)\<rfloor> = 2 \<and>
   valid_draw 7 2 [2, 3] \<and>
   mask_text_np (double_of (1/4)) 370 ''a b c d e f g h'' [2, 3] = Inr ''a b <extra_id_1> f g h'' \<and>
   mask_text_rs (double_of (1/4)) 370 ''a b c d e f g h'' [2, 3] = Inr ''a b <extra_id_1> f g h'' \<and>
   count_sub ''<extra_id_'' ''a b <extra_id_1> f g h'' = 1 \<and>
   count_sub ''<extra_id_0>'' ''a b <extra_id_1> f g h'' = 0 \<and>
   mask_text_np 1 370 ''w x y z'' [0, 2] = Inl ValueError \<and>
   mask_text_rs 1 370 ''w x y z'' [0, 2] = Inl ValueError \<and>
   mask_text_np (double_of (1/8)) 370 ''<extra_id_0> b c d e f g h'' [3] =
     Inr ''<extra_id_0> b c <extra_id_0> f g h'' \<and>
   count_sub ''<extra_id_0>'' ''<extra_id_0> b c <extra_id_0> f g h'' = 2 \<and>
   mask_text_np (double_of (15/100)) 370 ''a b c d e f g h i j k l m n o p q r s t'' [1, 5, 9] =
     Inr ''a <extra_id_2> d e <extra_id_1> h i <extra_id_0> l m n o p q r s t'' \<and>
   mask_text_rs (double_of (15/100)) 370 ''a b c d e f g h i j k l m n o p q r s t'' [1, 5, 9] =
     Inr ''a <extra_id_2> d e <extra_id_1> h i <extra_id_0> l m n o p q r s t'' \<and>
   count_sub ''<extra_id_'' ''a <extra_id_2> d e <extra_id_1> h i <extra_id_0> l m n o p q r s t'' = 3 \<and>
   \<lfloor>real (length (truncate_words 370 (py_split ''a b c d e f g h i j k l m n o p q r s t''))) *
      Rep_double (double_of (15/100))\<rfloor> = 2 \<and>
   num_masks_of (replicate 200 ''w'') (double_of (145/1000)) = 28 \<and>
   \<lfloor>real (length (replicate 200 ''w'')) * (145/1000)\<rfloor> = 29"
proof -
  let ?ws = "[''a'', ''b'', ''c'', ''d'', ''e'', ''f'', ''g'', ''h'']"
  have w: "truncate_words 370 (py_split ''a b c d e f g h'') = ?ws"
    by (simp add: truncate_words_def py_split_def is_space_def)
  have n: "num_masks_of ?ws (double_of (1/4)) = 2"
    by (simp add: num_masks_of_def py_int_def round_double_numeral round_quarter)
  have a: "mask_text_np (double_of (1/4)) 370 ''a b c d e f g h'' [2, 3] = Inr ''a b <extra_id_1> f g h''"
    unfolding mask_text_np_def Let_def w n
    by (simp add: np_random_choice_def marker_def str_nat.simps digit_char_def)
  have b: "mask_text_rs (double_of (1/4)) 370 ''a b c d e f g h'' [2, 3] = Inr ''a b <extra_id_1> f g h''"
    unfolding mask_text_rs_def Let_def w n
    by (simp add: random_sample_def marker_def str_nat.simps digit_char_def)
  have c: "count_sub ''<extra_id_'' ''a b <extra_id_1> f g h'' = 1" by code_simp
  have d: "count_sub ''<extra_id_0>'' ''a b <extra_id_1> f g h'' = 0" by code_simp
  have w4: "truncate_words 370 (py_split ''w x y z'') = [''w'', ''x'', ''y'', ''z'']"
    by (simp add: truncate_words_def py_split_def is_space_def)
  have n4: "num_masks_of [''w'', ''x'', ''y'', ''z''] 1 = 4"
    by (simp add: num_masks_all)
  have e: "mask_text_np 1 370 ''w x y z'' [0, 2] = Inl ValueError"
    unfolding mask_text_np_def Let_def w4 n4 by (simp add: np_random_choice_def)
  have f: "mask_text_rs 1 370 ''w x y z'' [0, 2] = Inl ValueError"
    unfolding mask_text_rs_def Let_def w4 n4 by (simp add: random_sample_def)
  have w7: "truncate_words 370 (py_split ''<extra_id_0> b c d e f g h'') =
      [''<extra_id_0>'', ''b'', ''c'', ''d'', ''e'', ''f'', ''g'', ''h'']"
    by (simp add: truncate_words_def py_split_def is_space_def)
  have n7: "num_masks_of [''<extra_id_0>'', ''b'', ''c'', ''d'', ''e'', ''f'', ''g'', ''h'']
      (double_of (1/8)) = 1"
    by (simp add: num_masks_of_def py_int_def round_double_numeral round_eighth)
  have g: "mask_text_np (double_of (1/8)) 370 ''<extra_id_0> b c d e f g h'' [3] =
     Inr ''<extra_id_0> b c <extra_id_0> f g h''"
    unfolding mask_text_np_def Let_def w7 n7
    by (simp add: np_random_choice_def marker_def str_nat.simps digit_char_def)
  have h: "count_sub ''<extra_id_0>'' ''<extra_id_0> b c <extra_id_0> f g h'' = 2" by code_simp
  have v: "valid_draw 7 2 [2, 3]" by (simp add: valid_draw_def)
  have fl: "\<lfloor>real (length ?ws) * (1/4)\<rfloor> = 2" by simp
  let ?ws20 = "[''a'', ''b'', ''c'', ''d'', ''e'', ''f'', ''g'', ''h'', ''i'', ''j'',
      ''k'', ''l'', ''m'', ''n'', ''o'', ''p'', ''q'', ''r'', ''s'', ''t'']"
  have w20: "truncate_words 370 (py_split ''a b c d e f g h i j k l m n o p q r s t'') = ?ws20"
    by (simp add: truncate_words_def py_split_def is_space_def)
  have l20: "round_double (real (length ?ws20)) = 20" by (simp add: round_double_numeral)
  have "num_masks_of ?ws20 (double_of (15/100)) =
      py_int (round_double (20 * (5404319552844595 / 2 ^ 55)))"
    unfolding num_masks_of_def Rep_double_of round_015 l20 ..
  then have n20: "num_masks_of ?ws20 (double_of (15/100)) = 3"
    unfolding product_20_015 by (simp add: py_int_def)
  have i: "mask_text_np (double_of (15/100)) 370 ''a b c d e f g h i j k l m n o p q r s t'' [1, 5, 9] =
     Inr ''a <extra_id_2> d e <extra_id_1> h i <extra_id_0> l m n o p q r s t''"
    unfolding mask_text_np_def Let_def w20 n20
    by (simp add: np_random_choice_def marker_def str_nat.simps digit_char_def)
  have j: "mask_text_rs (double_of (15/100)) 370 ''a b c d e f g h i j k l m n o p q r s t'' [1, 5, 9] =
     Inr ''a <extra_id_2> d e <extra_id_1> h i <extra_id_0> l m n o p q r s t''"
    unfolding mask_text_rs_def Let_def w20 n20
    by (simp add: random_sample_def marker_def str_nat.simps digit_char_def)
  have k: "count_sub ''<extra_id_''
      ''a <extra_id_2> d e <extra_id_1> h i <extra_id_0> l m n o p q r s t'' = 3"
    by code_simp
  have l: "\<lfloor>real (length (truncate_words 370 (py_split ''a b c d e f g h i j k l m n o p q r s t''))) *
      Rep_double (double_of (15/100))\<rfloor> = 2"
    unfolding w20 Rep_double_of round_015 by simp
  have l200: "round_double (real (length (replicate 200 ''w''))) = 200"
    by (simp add: round_double_numeral)
  have "num_masks_of (replicate 200 ''w'') (double_of (145/1000)) =
      py_int (round_double (200 * (5224175567749775 / 2 ^ 55)))"
    unfolding num_masks_of_def Rep_double_of round_0145 l200 ..
  then have m: "num_masks_of (replicate 200 ''w'') (double_of (145/1000)) = 28"
    unfolding product_200_0145 by (simp add: py_int_def)
  have o: "\<lfloor>real (length (replicate 200 ''w'')) * (145/1000)\<rfloor> = 29" by simp
  show ?thesis using w fl v a b c d e f g h i j k l m o by simp
qed
section \<open>Properties of the Infill Requester\<close>

lemma chunks_of_nonempty: "[] \<notin> set (chunks_of b xs)"
proof (induction b xs rule: chunks_of.induct)
  case (1 b xs)
  show ?case
  proof (cases "b = 0 \<or> xs = []")
    case True
    then show ?thesis by (subst chunks_of.simps) simp
  next
    case False
    then have "take b xs \<noteq> []" by simp
    moreover have "[] \<notin> set (chunks_of b (drop b xs))" using "1.IH" False by simp
    ultimately show ?thesis using False by (subst chunks_of.simps) simp
  qed
qed

lemma py_max_Max: "xs \<noteq> [] \<Longrightarrow> py_max xs = Inr (Max (set xs))"
proof (cases xs)
  case Nil
  assume "xs \<noteq> []" with Nil show ?thesis by simp
next
  case (Cons a list)
  show ?thesis using Max.set_eq_fold [of a list] by (simp add: Cons py_max_def)
qed

text \<open>
  Claim C6, as amended.  For every non-empty chunk the stop token is the first token of
  the placeholder marker whose index is the maximum, over the chunk, of the per-text
  counts of \<open>"<extra_id_"\<close>, in both variants; when no text of the chunk holds a
  placeholder this is marker 0.  The end-of-sequence token is the stop token only of
  the empty chunk, in the guarded variant (the unguarded one raises \<open>ValueError\<close>
  there), and the chunking loop forms no empty chunk.
\<close>

theorem stop_token_of_chunk:
  "(batch_texts \<noteq> [] \<longrightarrow>
      stop_id_guarded encode eos_token_id batch_texts =
        first_token encode (marker (Max (set (map (count_sub ''<extra_id_'') batch_texts)))) \<and>
      stop_id_unguarded encode batch_texts =
        first_token encode (marker (Max (set (map (count_sub ''<extra_id_'') batch_texts))))) \<and>
   (batch_texts \<noteq> [] \<and> (\<forall>t \<in> set batch_texts. count_sub ''<extra_id_'' t = 0) \<longrightarrow>
      stop_id_guarded encode eos_token_id batch_texts = first_token encode ''<extra_id_0>'' \<and>
      stop_id_unguarded encode batch_texts = first_token encode ''<extra_id_0>'') \<and>
   stop_id_guarded encode eos_token_id [] = Inr eos_token_id \<and>
   stop_id_unguarded encode [] = Inl ValueError \<and>
   (\<forall>chunks. py_chunks batch_size texts = Inr chunks \<longrightarrow> [] \<notin> set chunks)"
proof (intro conjI impI allI)
  assume ne: "batch_texts \<noteq> []"
  then show "stop_id_guarded encode eos_token_id batch_texts =
        first_token encode (marker (Max (set (map (count_sub ''<extra_id_'') batch_texts))))"
    by (simp add: stop_id_guarded_def py_max_Max)
  from ne show "stop_id_unguarded encode batch_texts =
        first_token encode (marker (Max (set (map (count_sub ''<extra_id_'') batch_texts))))"
    by (simp add: stop_id_unguarded_def py_max_Max)
next
  assume h: "batch_texts \<noteq> [] \<and> (\<forall>t \<in> set batch_texts. count_sub ''<extra_id_'' t = 0)"
  then have "set (map (count_sub ''<extra_id_'') batch_texts) = {0}" by (cases batch_texts) auto
  then have m: "Max (set (map (count_sub ''<extra_id_'') batch_texts)) = 0" by simp
  have z: "marker 0 = ''<extra_id_0>''" by (simp add: marker_def str_nat.simps digit_char_def)
  from h m z show "stop_id_guarded encode eos_token_id batch_texts = first_token encode ''<extra_id_0>''"
    by (simp add: stop_id_guarded_def py_max_Max del: set_map)
  from h m z show "stop_id_unguarded encode batch_texts = first_token encode ''<extra_id_0>''"
    by (simp add: stop_id_unguarded_def py_max_Max del: set_map)
next
  show "stop_id_guarded encode eos_token_id [] = Inr eos_token_id"
    by (simp add: stop_id_guarded_def)
  show "stop_id_unguarded encode [] = Inl ValueError"
    by (simp add: stop_id_unguarded_def py_max_def)
next
  fix chunks assume "py_chunks batch_size texts = Inr chunks"
  then show "[] \<notin> set chunks"
    by (auto simp: py_chunks_def chunks_of_nonempty split: if_splits)
qed

theorem stop_token_of_chunk_witness:
  "stop_id_guarded (\<lambda>s. if s = ''<extra_id_2>'' then [32097, 1] else [1]) 1
     [''a <extra_id_0> b <extra_id_1> c'', ''d <extra_id_0> e''] = Inr 32097 \<and>
   stop_id_unguarded (\<lambda>s. if s = ''<extra_id_2>'' then [32097, 1] else [1])
     [''a <extra_id_0> b <extra_id_1> c'', ''d <extra_id_0> e''] = Inr 32097 \<and>
   stop_id_guarded (\<lambda>s. if s = ''<extra_id_0>'' then [32099, 1] else [1]) 1 [''plain text''] = Inr 32099 \<and>
   py_chunks 2 [''x'', ''y'', ''z''] = Inr [[''x'', ''y''], [''z'']] \<and>
   [] \<notin> set [[''x'', ''y''], [''z'']]"
proof -
  have c1: "count_sub ''<extra_id_'' ''a <extra_id_0> b <extra_id_1> c'' = 2" by code_simp
  have c2: "count_sub ''<extra_id_'' ''d <extra_id_0> e'' = 1" by code_simp
  have c3: "count_sub ''<extra_id_'' ''plain text'' = 0" by code_simp
  have mx: "Max (set (map (count_sub ''<extra_id_'')
      [''a <extra_id_0> b <extra_id_1> c'', ''d <extra_id_0> e''])) = 2"
    by (simp add: c1 c2)
  have m2: "marker 2 = ''<extra_id_2>''" by (simp add: marker_def str_nat.simps digit_char_def)
  have ch: "py_chunks 2 [''x'', ''y'', ''z''] = Inr [[''x'', ''y''], [''z'']]"
    by (simp add: py_chunks_def chunks_of.simps)
  note a = stop_token_of_chunk [of "[''a <extra_id_0> b <extra_id_1> c'', ''d <extra_id_0> e'']"
      "\<lambda>s. if s = ''<extra_id_2>'' then [32097, 1] else [1]" 1 2 "[''x'', ''y'', ''z'']"]
  note b = stop_token_of_chunk [of "[''plain text'']"
      "\<lambda>s. if s = ''<extra_id_0>'' then [32099, 1] else [1]" 1 2 "[''x'', ''y'', ''z'']"]
  have g: "stop_id_guarded (\<lambda>s. if s = ''<extra_id_2>'' then [32097, 1] else [1]) 1
     [''a <extra_id_0> b <extra_id_1> c'', ''d <extra_id_0> e''] = Inr 32097"
    using a [THEN conjunct1] unfolding mx m2 by (simp add: first_token_def)
  have u: "stop_id_unguarded (\<lambda>s. if s = ''<extra_id_2>'' then [32097, 1] else [1])
     [''a <extra_id_0> b <extra_id_1> c'', ''d <extra_id_0> e''] = Inr 32097"
    using a [THEN conjunct1] unfolding mx m2 by (simp add: first_token_def)
  have p: "stop_id_guarded (\<lambda>s. if s = ''<extra_id_0>'' then [32099, 1] else [1]) 1 [''plain text''] = Inr 32099"
    using b [THEN conjunct2, THEN conjunct1] by (simp add: c3 first_token_def)
  have e: "[] \<notin> set [[''x'', ''y''], [''z'']]"
    using a [THEN conjunct2, THEN conjunct2, THEN conjunct2, THEN conjunct2, rule_format, OF ch] .
  show ?thesis using g u p ch e by simp
qed

text \<open>
  The claim as stated has the model stop on its end-of-sequence token when the chunk
  holds no placeholder.  With T5's ids (\<open><extra_id_0>\<close> is 32099, end of sequence is
  1) the chunk of the one text \<open>hello world\<close> stops on 32099.
\<close>

theorem stop_token_without_placeholders_counterexample:
  "count_sub ''<extra_id_'' ''hello world'' = 0 \<and>
   stop_id_guarded (\<lambda>s. if s = ''<extra_id_0>'' then [32099, 1] else [1]) 1 [''hello world''] = Inr 32099 \<and>
   stop_id_guarded (\<lambda>s. if s = ''<extra_id_0>'' then [32099, 1] else [1]) 1 [''hello world''] \<noteq> Inr 1"
proof -
  have c: "count_sub ''<extra_id_'' ''hello world'' = 0" by code_simp
  have z: "marker 0 = ''<extra_id_0>''" by (simp add: marker_def str_nat.simps digit_char_def)
  show ?thesis by (simp add: c z stop_id_guarded_def py_max_def first_token_def)
qed

section \<open>Properties of the Fill Applier\<close>

text \<open>Replacing a marker does not touch a prefix without \<open><\<close>.\<close>

lemma replace_first_keeps_prefix:
  assumes "CHR ''<'' \<notin> set u"
  shows "replace_first (marker i) new (u @ s) = u @ replace_first (marker i) new s"
  using assms
proof (induction u)
  case Nil
  then show ?case by simp
next
  case (Cons a u)
  then have "a \<noteq> CHR ''<''" by auto
  then have "\<not> prefix (marker i) (a # u @ s)" by (simp add: marker_Cons)
  then show ?case using Cons by simp
qed

lemma replace_first_keeps_marker:
  assumes "i \<noteq> j" "sublist (marker j) s"
  shows "sublist (marker j) (replace_first (marker i) new s)"
  using assms(2)
proof (induction s)
  case Nil
  then show ?case by (simp add: marker_nonempty)
next
  case (Cons c cs)
  show ?case
  proof (cases "prefix (marker i) (c # cs)")
    case True
    then obtain rest where r: "c # cs = marker i @ rest" by (auto simp: prefix_def)
    then have "sublist (marker j) rest" using Cons.prems assms(1) marker_after_marker by metis
    moreover have "replace_first (marker i) new (c # cs) = new @ rest"
      using True r by (metis append_eq_conv_conj replace_first.simps(2))
    ultimately show ?thesis by (simp add: sublist_append)
  next
    case False
    from Cons.prems consider "prefix (marker j) (c # cs)" | "sublist (marker j) cs"
      by (auto simp: sublist_Cons_right)
    then show ?thesis
    proof cases
      case 1
      then obtain rest where r: "c # cs = marker j @ rest" by (auto simp: prefix_def)
      then have c: "c = CHR ''<''" and cs: "cs = (''extra_id_'' @ str_nat j @ ''>'') @ rest"
        by (simp_all add: marker_Cons)
      have "replace_first (marker i) new cs =
          (''extra_id_'' @ str_nat j @ ''>'') @ replace_first (marker i) new rest"
        unfolding cs using marker_tail_no_lt by (rule replace_first_keeps_prefix)
      then have "replace_first (marker i) new (c # cs) = marker j @ replace_first (marker i) new rest"
        using False c by (simp add: marker_Cons)
      then show ?thesis by (simp add: sublist_append)
    next
      case 2
      then have "sublist (marker j) (replace_first (marker i) new cs)" by (rule Cons.IH)
      then show ?thesis using False by (simp add: sublist_Cons_right)
    qed
  qed
qed

lemma first_occurrence_Some:
  "first_occurrence sub s = Some k \<Longrightarrow>
   k \<le> length s \<and> prefix sub (drop k s) \<and> (\<forall>j<k. \<not> prefix sub (drop j s))"
proof (induction s arbitrary: k)
  case Nil
  then show ?case by (simp split: if_splits)
next
  case (Cons c cs)
  show ?case
  proof (cases "prefix sub (c # cs)")
    case True
    then show ?thesis using Cons.prems by simp
  next
    case False
    then obtain k' where k: "k = Suc k'" "first_occurrence sub cs = Some k'"
      using Cons.prems by auto
    from Cons.IH [OF k(2)] have ih: "k' \<le> length cs" "prefix sub (drop k' cs)"
      "\<forall>j<k'. \<not> prefix sub (drop j cs)" by simp_all
    have "\<not> prefix sub (drop j (c # cs))" if "j < k" for j
      using that False ih(3) k(1) by (cases j) simp_all
    then show ?thesis using ih k(1) by simp
  qed
qed

lemma first_occurrence_None:
  "first_occurrence sub s = None \<longleftrightarrow> \<not> sublist sub s"
proof (induction s)
  case Nil
  then show ?case by simp
next
  case (Cons c cs)
  then show ?case by (simp add: sublist_Cons_right)
qed

lemma replace_first_first_occurrence:
  "replace_first old new s =
     (case first_occurrence old s of
        None \<Rightarrow> s
      | Some k \<Rightarrow> take k s @ new @ drop (k + length old) s)"
proof (induction s)
  case Nil
  then show ?case by simp
next
  case (Cons c cs)
  then show ?case by (simp split: option.splits)
qed

lemma replace_masks_from_spec:
  "replace_masks_from i t fills = foldl spec_fill_step t (enumerate i fills)"
proof (induction fills arbitrary: i t)
  case Nil
  then show ?case by simp
next
  case (Cons fill fills)
  then show ?case by (simp add: spec_fill_step_def replace_first_first_occurrence)
qed

lemma replace_masks_from_keeps_marker:
  "i + length fills \<le> j \<Longrightarrow> sublist (marker j) t \<Longrightarrow>
   sublist (marker j) (replace_masks_from i t fills)"
proof (induction fills arbitrary: i t)
  case Nil
  then show ?case by simp
next
  case (Cons fill fills)
  have "i \<noteq> j" using Cons.prems(1) by simp
  then have "sublist (marker j) (replace_first (marker i) fill t)"
    using Cons.prems(2) by (rule replace_first_keeps_marker)
  moreover have "Suc i + length fills \<le> j" using Cons.prems(1) by simp
  ultimately show ?case using Cons.IH by simp
qed


text \<open>
  Claim C8.  On an empty fill set the Applier returns the masked text unchanged.
  Otherwise its result is that of the specification's procedure: the fills are taken in
  order and the fill of index \<open>i\<close> replaces the first occurrence of marker \<open>i\<close> in the
  working text, where the first occurrence is the least index at which the marker
  occurs.  A fill whose marker does not occur in the working text changes nothing, and
  a marker of index beyond the number of fills that occurs in the masked text still
  occurs in the output.  The batch applies this pair by pair.
\<close>

theorem applier_behaviour:
  "apply_extracted_fills masked_text [] = masked_text \<and>
   apply_extracted_fills masked_text fills = spec_apply_fills masked_text fills \<and>
   (\<forall>sub s k. first_occurrence sub s = Some k \<longrightarrow>
      k \<le> length s \<and> prefix sub (drop k s) \<and> (\<forall>j<k. \<not> prefix sub (drop j s))) \<and>
   (\<forall>sub s. first_occurrence sub s = None \<longleftrightarrow> \<not> sublist sub s) \<and>
   (\<forall>i fill working. \<not> sublist (marker i) working \<longrightarrow>
      spec_fill_step working (i, fill) = working) \<and>
   (\<forall>j. length fills \<le> j \<and> sublist (marker j) masked_text \<longrightarrow>
      sublist (marker j) (apply_extracted_fills masked_text fills)) \<and>
   length (batch_apply_extracted_fills masked_texts extracted_fills) =
     min (length masked_texts) (length extracted_fills) \<and>
   (\<forall>n. n < length masked_texts \<and> n < length extracted_fills \<longrightarrow>
      batch_apply_extracted_fills masked_texts extracted_fills ! n =
        apply_extracted_fills (masked_texts ! n) (extracted_fills ! n))"
proof (intro conjI allI impI)
  show "apply_extracted_fills masked_text [] = masked_text"
    by (simp add: apply_extracted_fills_def)
  show "apply_extracted_fills masked_text fills = spec_apply_fills masked_text fills"
    by (simp add: apply_extracted_fills_def replace_masks_def spec_apply_fills_def
        replace_masks_from_spec)
  show "length (batch_apply_extracted_fills masked_texts extracted_fills) =
     min (length masked_texts) (length extracted_fills)"
    by (simp add: batch_apply_extracted_fills_def)
next
  fix sub s k assume a: "first_occurrence sub s = Some k"
  show "k \<le> length s" "prefix sub (drop k s)"
    using first_occurrence_Some [OF a] by simp_all
  fix j assume "j < k"
  then show "\<not> prefix sub (drop j s)" using first_occurrence_Some [OF a] by simp
next
  fix sub s
  show "first_occurrence sub s = None \<longleftrightarrow> \<not> sublist sub s"
    by (rule first_occurrence_None)
next
  fix i fill working assume "\<not> sublist (marker i) working"
  then show "spec_fill_step working (i, fill) = working"
    by (simp add: spec_fill_step_def first_occurrence_None [symmetric])
next
  fix j assume "length fills \<le> j \<and> sublist (marker j) masked_text"
  then show "sublist (marker j) (apply_extracted_fills masked_text fills)"
    using replace_masks_from_keeps_marker [of 0 fills j masked_text]
    by (simp add: apply_extracted_fills_def replace_masks_def)
next
  fix n assume "n < length masked_texts \<and> n < length extracted_fills"
  then show "batch_apply_extracted_fills masked_texts extracted_fills ! n =
        apply_extracted_fills (masked_texts ! n) (extracted_fills ! n)"
    by (simp add: batch_apply_extracted_fills_def)
qed

theorem applier_behaviour_witness:
  "apply_extracted_fills ''a <extra_id_0> b <extra_id_1> c'' [''X''] = ''a X b <extra_id_1> c'' \<and>
   sublist (marker 1) (apply_extracted_fills ''a <extra_id_0> b <extra_id_1> c'' [''X'']) \<and>
   first_occurrence (marker 0) ''a <extra_id_0> b <extra_id_1> c'' = Some 2 \<and>
   prefix (marker 0) (drop 2 ''a <extra_id_0> b <extra_id_1> c'') \<and>
   apply_extracted_fills ''a <extra_id_0> b'' [''X'', ''Y''] = ''a X b'' \<and>
   batch_apply_extracted_fills [''a <extra_id_0> b'', ''c''] [[''X'', ''Y''], []] ! 0 = ''a X b''"
proof -
  have m0: "marker 0 = ''<extra_id_0>''" by (simp add: marker_def str_nat.simps digit_char_def)
  have m1: "marker 1 = ''<extra_id_1>''" by (simp add: marker_def str_nat.simps digit_char_def)
  have m1': "marker (Suc 0) = ''<extra_id_1>''" using m1 by simp
  have f: "first_occurrence (marker 0) ''a <extra_id_0> b <extra_id_1> c'' = Some 2"
    by (simp add: m0)
  have s1: "sublist (marker 1) ''a <extra_id_0> b <extra_id_1> c''"
    by (simp add: m1' sublist_Cons_right)
  have e1: "apply_extracted_fills ''a <extra_id_0> b <extra_id_1> c'' [''X''] = ''a X b <extra_id_1> c''"
    by (simp add: apply_extracted_fills_def replace_masks_def m0)
  have e2: "apply_extracted_fills ''a <extra_id_0> b'' [''X'', ''Y''] = ''a X b''"
    by (simp add: apply_extracted_fills_def replace_masks_def m0 m1')
  note T = applier_behaviour [of "''a <extra_id_0> b <extra_id_1> c''" "[''X'']"
      "[''a <extra_id_0> b'', ''c'']" "[[''X'', ''Y''], []]"]
  have k: "sublist (marker 1) (apply_extracted_fills ''a <extra_id_0> b <extra_id_1> c'' [''X''])"
    using T [THEN conjunct2, THEN conjunct2, THEN conjunct2, THEN conjunct2, THEN conjunct2,
        THEN conjunct1, rule_format, of 1] s1 by simp
  have p: "prefix (marker 0) (drop 2 ''a <extra_id_0> b <extra_id_1> c'')"
    using T [THEN conjunct2, THEN conjunct2, THEN conjunct1, rule_format, OF f] by simp
  have b: "batch_apply_extracted_fills [''a <extra_id_0> b'', ''c''] [[''X'', ''Y''], []] ! 0 = ''a X b''"
    using T [THEN conjunct2, THEN conjunct2, THEN conjunct2, THEN conjunct2, THEN conjunct2,
        THEN conjunct2, THEN conjunct2, rule_format, of 0] e2 by simp
  show ?thesis using e1 k f p e2 b by simp
qed

section \<open>Properties of the Fill Extractor\<close>

subsection \<open>Markers of the pattern\<close>

lemma not_digit_gt: "\<not> is_digit (CHR ''>'')"
  by (simp add: is_digit_def)

lemma not_digit_lt: "\<not> is_digit (CHR ''<'')"
  by (simp add: is_digit_def)

lemma at_marker_iff:
  "at_marker s = Some r \<longleftrightarrow>
     (\<exists>ds. ds \<noteq> [] \<and> (\<forall>d\<in>set ds. is_digit d) \<and> s = ''<extra_id_'' @ ds @ ''>'' @ r)"
proof
  assume a: "at_marker s = Some r"
  then have p: "prefix ''<extra_id_'' s" by (simp add: at_marker_def split: if_splits)
  then obtain u where s: "s = ''<extra_id_'' @ u" by (auto simp: prefix_def)
  then have u: "drop 10 s = u" by simp
  from a p have c: "takeWhile is_digit u \<noteq> []" "dropWhile is_digit u \<noteq> []"
    "hd (dropWhile is_digit u) = CHR ''>''" "r = tl (dropWhile is_digit u)"
    unfolding at_marker_def u Let_def by (auto split: if_splits)
  have "u = takeWhile is_digit u @ dropWhile is_digit u" by simp
  also have "dropWhile is_digit u = CHR ''>'' # r" using c(2,3,4) by (cases "dropWhile is_digit u") auto
  finally have "s = ''<extra_id_'' @ takeWhile is_digit u @ ''>'' @ r" using s by simp
  moreover have "\<forall>d\<in>set (takeWhile is_digit u). is_digit d" by (auto dest: set_takeWhileD)
  ultimately show "\<exists>ds. ds \<noteq> [] \<and> (\<forall>d\<in>set ds. is_digit d) \<and> s = ''<extra_id_'' @ ds @ ''>'' @ r"
    using c(1) by blast
next
  assume "\<exists>ds. ds \<noteq> [] \<and> (\<forall>d\<in>set ds. is_digit d) \<and> s = ''<extra_id_'' @ ds @ ''>'' @ r"
  then obtain ds where ds: "ds \<noteq> []" "\<forall>d\<in>set ds. is_digit d" "s = ''<extra_id_'' @ ds @ ''>'' @ r"
    by blast
  have t: "takeWhile is_digit (ds @ CHR ''>'' # r) = ds"
    using ds(2) not_digit_gt by (simp add: takeWhile_append2)
  have d: "dropWhile is_digit (ds @ CHR ''>'' # r) = CHR ''>'' # r"
    using ds(2) not_digit_gt by (simp add: dropWhile_append2)
  have dr: "drop 10 (''<extra_id_'' @ ds @ ''>'' @ r) = ds @ CHR ''>'' # r" by simp
  have pr: "prefix ''<extra_id_'' (''<extra_id_'' @ ds @ ''>'' @ r)" by simp
  show "at_marker s = Some r"
    unfolding at_marker_def ds(3) Let_def dr t d using ds(1) pr by simp
qed

text \<open>A marker begins with \<open><\<close> and holds no other one.\<close>

lemma at_marker_append:
  assumes "at_marker (u @ v) \<noteq> None" "u \<noteq> []" "v = [] \<or> hd v = CHR ''<''"
  shows "at_marker u \<noteq> None"
proof -
  from assms(1) obtain r where "at_marker (u @ v) = Some r" by blast
  then obtain ds where ds: "ds \<noteq> []" "\<forall>d\<in>set ds. is_digit d"
    and uv: "u @ v = ''<extra_id_'' @ ds @ ''>'' @ r"
    unfolding at_marker_iff by blast
  let ?m = "''<extra_id_'' @ ds @ ''>''"
  have uv': "u @ v = ?m @ r" using uv by simp
  have inner: "?m ! k \<noteq> CHR ''<''" if "0 < k" "k < length ?m" for k
  proof -
    let ?t = "''extra_id_'' @ ds @ ''>''"
    have m: "?m = CHR ''<'' # ?t" by simp
    from that(1) obtain j where j: "k = Suc j" by (cases k) auto
    then have "j < length ?t" using that(2) by simp
    then have "?t ! j \<in> set ?t" by (rule nth_mem)
    moreover have "?m ! k = ?t ! j" unfolding m j by (rule nth_Cons_Suc)
    moreover have "CHR ''<'' \<notin> set ?t" using ds(2) not_digit_lt by auto
    ultimately show ?thesis by metis
  qed
  have "length ?m \<le> length u"
  proof (rule ccontr)
    assume "\<not> length ?m \<le> length u"
    then have lt: "length u < length ?m" by simp
    have "0 < length u" using assms(2) by simp
    then have n: "?m ! length u \<noteq> CHR ''<''" using lt by (rule inner)
    have "(u @ v) ! length u = ?m ! length u" unfolding uv' using lt by (simp only: nth_append if_True)
    then have "v ! 0 = ?m ! length u" by (simp add: nth_append)
    moreover have "v \<noteq> []" using lt uv' by (metis append_Nil2 length_append not_add_less1)
    ultimately show False using assms(3) n by (simp add: hd_conv_nth)
  qed
  then obtain w where "u = ?m @ w" using uv'
    by (metis append_eq_append_conv_if append_take_drop_id)
  then have "at_marker u = Some w" unfolding at_marker_iff using ds by auto
  then show ?thesis by simp
qed

lemma at_marker_extend: "at_marker u = Some r \<Longrightarrow> at_marker (u @ v) = Some (r @ v)"
  unfolding at_marker_iff by auto

lemma at_marker_shorter: "at_marker s = Some r \<Longrightarrow> length r < length s"
  unfolding at_marker_iff by auto

lemma at_marker_hd: "at_marker s \<noteq> None \<Longrightarrow> s \<noteq> [] \<and> hd s = CHR ''<''"
proof -
  assume "at_marker s \<noteq> None"
  then obtain r where "at_marker s = Some r" by blast
  then show ?thesis unfolding at_marker_iff by auto
qed

lemma has_marker_iff: "has_marker s \<longleftrightarrow> (\<exists>k<length s. at_marker (drop k s) \<noteq> None)"
proof (induction s)
  case Nil
  then show ?case by simp
next
  case (Cons c cs)
  show ?case
  proof
    assume "has_marker (c # cs)"
    then consider "at_marker (c # cs) \<noteq> None" | "has_marker cs" by auto
    then show "\<exists>k<length (c # cs). at_marker (drop k (c # cs)) \<noteq> None"
    proof cases
      case 1
      then have "at_marker (drop 0 (c # cs)) \<noteq> None" by simp
      then show ?thesis by blast
    next
      case 2
      then obtain k where "k < length cs" "at_marker (drop k cs) \<noteq> None" using Cons.IH by blast
      then have "Suc k < length (c # cs)" "at_marker (drop (Suc k) (c # cs)) \<noteq> None" by simp_all
      then show ?thesis by blast
    qed
  next
    assume "\<exists>k<length (c # cs). at_marker (drop k (c # cs)) \<noteq> None"
    then obtain k where k: "k < length (c # cs)" "at_marker (drop k (c # cs)) \<noteq> None" by blast
    show "has_marker (c # cs)"
    proof (cases k)
      case 0
      then show ?thesis using k by simp
    next
      case (Suc j)
      then have "j < length cs" "at_marker (drop j cs) \<noteq> None" using k by simp_all
      then have "has_marker cs" using Cons.IH by blast
      then show ?thesis by simp
    qed
  qed
qed

lemma has_marker_infix:
  assumes "has_marker b"
  shows "has_marker (a @ b @ c)"
proof -
  from assms obtain k where k: "k < length b" "at_marker (drop k b) \<noteq> None"
    unfolding has_marker_iff by blast
  then obtain r where "at_marker (drop k b) = Some r" by blast
  then have "at_marker (drop k b @ c) = Some (r @ c)" by (rule at_marker_extend)
  moreover have "drop (length a + k) (a @ b @ c) = drop k b @ c" using k(1) by simp
  ultimately have "at_marker (drop (length a + k) (a @ b @ c)) \<noteq> None" by simp
  moreover have "length a + k < length (a @ b @ c)" using k(1) by simp
  ultimately show ?thesis unfolding has_marker_iff by blast
qed


subsection \<open>The matcher\<close>

lemma trailing_ws_Some:
  "trailing_ws s = Some r \<Longrightarrow>
   \<exists>k\<le>length s. r = drop k s \<and> lookahead r \<and> (\<forall>c\<in>set (take k s). is_space c)"
proof (induction s)
  case Nil
  then show ?case by (simp split: if_splits)
next
  case (Cons c cs)
  show ?case
  proof (cases "is_space c \<and> trailing_ws cs = Some r")
    case True
    then obtain k where "k \<le> length cs" "r = drop k cs" "lookahead r"
      "\<forall>c\<in>set (take k cs). is_space c"
      using Cons.IH by blast
    then have "Suc k \<le> length (c # cs) \<and> r = drop (Suc k) (c # cs) \<and> lookahead r \<and>
        (\<forall>x\<in>set (take (Suc k) (c # cs)). is_space x)"
      using True by simp
    then show ?thesis by blast
  next
    case False
    then have "r = c # cs \<and> lookahead r"
      using Cons.prems by (auto split: if_splits option.splits)
    then have "0 \<le> length (c # cs) \<and> r = drop 0 (c # cs) \<and> lookahead r \<and>
        (\<forall>x\<in>set (take 0 (c # cs)). is_space x)"
      by auto
    then show ?thesis by blast
  qed
qed

lemma trailing_ws_length: "trailing_ws s = Some r \<Longrightarrow> length r \<le> length s"
  using trailing_ws_Some [of s r] by auto

lemma lazy_capture_length: "lazy_capture acc s = Some (f, r) \<Longrightarrow> length r \<le> length s"
proof (induction s arbitrary: acc)
  case Nil
  then show ?case by (auto split: option.splits if_splits)
next
  case (Cons c cs)
  show ?case
  proof (cases "trailing_ws (c # cs)")
    case None
    then have "lazy_capture (c # acc) cs = Some (f, r)"
      using Cons.prems by (simp split: if_splits)
    then have "length r \<le> length cs" by (rule Cons.IH)
    then show ?thesis by simp
  next
    case (Some r')
    then have "r = r'" using Cons.prems by simp
    then show ?thesis using Some trailing_ws_length by blast
  qed
qed

lemma leading_ws_length: "leading_ws s = Some (f, r) \<Longrightarrow> length r \<le> length s"
proof (induction s)
  case Nil
  then show ?case using lazy_capture_length [of "[]" "[]" f r] by simp
next
  case (Cons c cs)
  show ?case
  proof (cases "is_space c \<and> leading_ws cs \<noteq> None")
    case True
    then have "leading_ws cs = Some (f, r)" using Cons.prems by auto
    then have "length r \<le> length cs" by (rule Cons.IH)
    then show ?thesis by simp
  next
    case False
    then have "lazy_capture [] (c # cs) = Some (f, r)"
      using Cons.prems by (auto split: if_splits option.splits)
    then show ?thesis by (rule lazy_capture_length)
  qed
qed

lemma match_here_shorter: "match_here s = Some (f, r) \<Longrightarrow> length r < length s"
proof -
  assume "match_here s = Some (f, r)"
  then obtain r' where a: "at_marker s = Some r'" and l: "leading_ws r' = Some (f, r)"
    by (auto simp: match_here_def split: option.splits)
  from a have "length r' < length s" by (rule at_marker_shorter)
  moreover from l have "length r \<le> length r'" by (rule leading_ws_length)
  ultimately show ?thesis by simp
qed

text \<open>The search without the test on the lengths.\<close>

lemma findall_match:
  assumes "match_here s = Some (f, r)"
  shows "findall s = f # findall r"
proof (cases s)
  case Nil
  then show ?thesis using assms by (simp add: match_here_def at_marker_def)
next
  case (Cons c cs)
  have "length r < length s" using assms by (rule match_here_shorter)
  then have "length r \<le> length cs" using Cons by simp
  then show ?thesis using assms Cons by simp
qed

lemma findall_no_match:
  assumes "match_here (c # cs) = None"
  shows "findall (c # cs) = findall cs"
  using assms by simp

lemma trailing_ws_spaces:
  assumes "\<forall>c\<in>set w. is_space c" "lookahead nxt" "nxt = [] \<or> \<not> is_space (hd nxt)"
  shows "trailing_ws (w @ nxt) = Some nxt"
  using assms(1)
proof (induction w)
  case Nil
  show ?case
  proof (cases nxt)
    case Nil
    then show ?thesis using assms(2) by simp
  next
    case (Cons c cs)
    then show ?thesis using assms(2,3) by simp
  qed
next
  case (Cons c w)
  then show ?case by simp
qed

lemma lazy_capture_stop:
  "trailing_ws s = Some r \<Longrightarrow> lazy_capture acc s = Some (rev acc, r)"
  by (cases s) simp_all

lemma lazy_capture_run:
  assumes "\<forall>k<length x. trailing_ws (drop k x @ y) = None"
    and "CHR 0x0A \<notin> set x"
    and "trailing_ws y = Some r"
  shows "lazy_capture acc (x @ y) = Some (rev acc @ x, r)"
  using assms(1,2)
proof (induction x arbitrary: acc)
  case Nil
  then show ?case using assms(3) by (simp add: lazy_capture_stop)
next
  case (Cons c x)
  have "trailing_ws (drop 0 (c # x) @ y) = None" using Cons.prems(1) by blast
  then have n: "trailing_ws (c # x @ y) = None" by simp
  have c: "c \<noteq> CHR 0x0A" using Cons.prems(2) by auto
  have "\<forall>k<length x. trailing_ws (drop k x @ y) = None"
  proof (intro allI impI)
    fix k assume "k < length x"
    then have "trailing_ws (drop (Suc k) (c # x) @ y) = None" using Cons.prems(1) by auto
    then show "trailing_ws (drop k x @ y) = None" by simp
  qed
  moreover have "CHR 0x0A \<notin> set x" using Cons.prems(2) by simp
  ultimately have "lazy_capture (c # acc) (x @ y) = Some (rev (c # acc) @ x, r)"
    by (rule Cons.IH)
  then show ?case using n c by simp
qed

lemma leading_ws_spaces:
  assumes "\<forall>c\<in>set w. is_space c" "z = [] \<or> \<not> is_space (hd z)"
    and "lazy_capture [] z = Some m"
  shows "leading_ws (w @ z) = Some m"
  using assms(1)
proof (induction w)
  case Nil
  show ?case
  proof (cases z)
    case Nil
    then show ?thesis using assms(3) by simp
  next
    case (Cons c cs)
    then show ?thesis using assms(2,3) by simp
  qed
next
  case (Cons c w)
  then show ?case by simp
qed


subsection \<open>Stripping\<close>

lemma strip_decomp:
  "\<exists>w1 w2. t = w1 @ strip t @ w2 \<and> (\<forall>c\<in>set w1. is_space c) \<and> (\<forall>c\<in>set w2. is_space c) \<and>
     (strip t \<noteq> [] \<longrightarrow> \<not> is_space (hd (strip t)) \<and> \<not> is_space (last (strip t))) \<and>
     (strip t = [] \<longrightarrow> w2 = [])"
proof -
  define d where "d = dropWhile is_space t"
  define e where "e = dropWhile is_space (rev d)"
  define w2 where "w2 = rev (takeWhile is_space (rev d))"
  have st: "strip t = rev e" by (simp add: strip_def d_def e_def)
  have "rev d = takeWhile is_space (rev d) @ e" by (simp add: e_def)
  then have "rev (rev d) = rev (takeWhile is_space (rev d) @ e)" by simp
  then have d: "d = rev e @ w2" by (simp add: w2_def)
  have "t = takeWhile is_space t @ d" by (simp add: d_def)
  then have t: "t = takeWhile is_space t @ strip t @ w2"
    unfolding st using d by simp
  have s1: "\<forall>c\<in>set (takeWhile is_space t). is_space c" by (auto dest: set_takeWhileD)
  have s2: "\<forall>c\<in>set w2. is_space c" by (auto simp: w2_def dest: set_takeWhileD)
  have ne: "\<not> is_space (hd (strip t)) \<and> \<not> is_space (last (strip t))" if "strip t \<noteq> []"
  proof -
    from that have e: "e \<noteq> []" using st by simp
    then have "\<not> is_space (hd e)" unfolding e_def by (rule hd_dropWhile)
    then have l: "\<not> is_space (last (strip t))" using e st by (simp add: last_rev)
    have "d \<noteq> []" using d e by simp
    then have "\<not> is_space (hd d)" unfolding d_def by (rule hd_dropWhile)
    moreover have "hd d = hd (strip t)" using d st that by simp
    ultimately show ?thesis using l by simp
  qed
  have em: "w2 = []" if "strip t = []"
  proof -
    from that have "e = []" using st by simp
    then have "d = w2" using d by simp
    then have a: "\<forall>c\<in>set d. is_space c" using s2 by simp
    have "d = []"
    proof (rule ccontr)
      assume "d \<noteq> []"
      then have "\<not> is_space (hd d)" unfolding d_def by (rule hd_dropWhile)
      then show False using a \<open>d \<noteq> []\<close> by simp
    qed
    then show ?thesis using \<open>d = w2\<close> by simp
  qed
  show ?thesis using t s1 s2 ne em by blast
qed

lemma strip_fixed:
  assumes "s = [] \<or> (\<not> is_space (hd s) \<and> \<not> is_space (last s))"
  shows "strip s = s"
proof (cases "s = []")
  case True
  then show ?thesis by (simp add: strip_def)
next
  case False
  then have h: "\<not> is_space (hd s)" "\<not> is_space (last s)" using assms by simp_all
  have "dropWhile is_space s = s" using False h(1) by (cases s) simp_all
  moreover have "dropWhile is_space (rev s) = rev s"
    using False h(2) by (cases "rev s") (simp_all add: last_rev [symmetric] hd_rev)
  ultimately show ?thesis by (simp add: strip_def)
qed

lemma strip_strip: "strip (strip t) = strip t"
proof -
  obtain w1 w2 where
    "strip t \<noteq> [] \<longrightarrow> \<not> is_space (hd (strip t)) \<and> \<not> is_space (last (strip t))"
    using strip_decomp [of t] by blast
  then have "strip t = [] \<or> (\<not> is_space (hd (strip t)) \<and> \<not> is_space (last (strip t)))"
    by blast
  then show ?thesis by (rule strip_fixed)
qed

lemma strip_no_marker:
  assumes "\<not> has_marker t"
  shows "\<not> has_marker (strip t)"
proof
  assume h: "has_marker (strip t)"
  obtain w1 w2 where t: "t = w1 @ strip t @ w2" using strip_decomp [of t] by blast
  have "has_marker (w1 @ strip t @ w2)" using h by (rule has_marker_infix)
  then have "has_marker t" using t by metis
  then show False using assms by simp
qed

subsection \<open>A marker followed by a text\<close>

lemma no_stop_inside:
  assumes t: "t = w1 @ core @ w2"
    and last_core: "\<not> is_space (last core)"
    and nm: "\<not> has_marker t"
    and nx: "nxt = [] \<or> hd nxt = CHR ''<''"
    and k: "k < length core"
  shows "trailing_ws (drop k core @ w2 @ nxt) = None"
proof (rule ccontr)
  define x where "x = drop k core"
  have x: "x \<noteq> []" using k by (simp add: x_def)
  have lx: "\<not> is_space (last x)" using k last_core by (simp add: x_def)
  assume "trailing_ws (drop k core @ w2 @ nxt) \<noteq> None"
  then obtain r where "trailing_ws (x @ w2 @ nxt) = Some r" unfolding x_def by blast
  then obtain j where j: "r = drop j (x @ w2 @ nxt)" "lookahead r"
    "\<forall>c\<in>set (take j (x @ w2 @ nxt)). is_space c"
    using trailing_ws_Some by blast
  have jx: "j < length x"
  proof (rule ccontr)
    assume "\<not> j < length x"
    then have "take j (x @ w2 @ nxt) = x @ take (j - length x) (w2 @ nxt)" by simp
    moreover have "last x \<in> set x" using x by (rule last_in_set)
    ultimately have "last x \<in> set (take j (x @ w2 @ nxt))" by simp
    then show False using j(3) lx by blast
  qed
  define y where "y = drop j x"
  have y: "y \<noteq> []" using jx by (simp add: y_def)
  have ly: "last y = last x" using jx by (simp add: y_def)
  have r: "r = (y @ w2) @ nxt" using j(1) jx by (simp add: y_def)
  from j(2) consider "at_marker r \<noteq> None" | "r = []" | "r = [CHR 0x0A]"
    by (auto simp: lookahead_def)
  then show False
  proof cases
    case 1
    have "y @ w2 \<noteq> []" using y by simp
    with 1 have "at_marker (y @ w2) \<noteq> None"
      unfolding r using nx by (rule at_marker_append)
    moreover have "y @ w2 = drop (length w1 + k + j) t"
    proof -
      have "drop (length w1 + k + j) t = drop (k + j) (core @ w2)"
        unfolding t by (simp add: add.assoc)
      also have "\<dots> = drop (k + j) core @ w2" using jx k by (simp add: x_def)
      also have "\<dots> = y @ w2" by (simp add: x_def y_def add.commute)
      finally show ?thesis by simp
    qed
    moreover have "length w1 + k + j < length t"
      unfolding t using jx by (simp add: x_def)
    ultimately have "has_marker t" unfolding has_marker_iff by metis
    then show False using nm by simp
  next
    case 2
    then show False using r y by simp
  next
    case 3
    then have "y = [CHR 0x0A]" using r y by (cases y) auto
    then have "last y = CHR 0x0A" by simp
    then show False using ly lx by (simp add: is_space_def)
  qed
qed

lemma match_segment:
  assumes m: "at_marker s = Some (t @ nxt)"
    and nm: "\<not> has_marker t"
    and nl: "CHR 0x0A \<notin> set (strip t)"
    and nx: "nxt = [] \<or> at_marker nxt \<noteq> None"
  shows "match_here s = Some (strip t, nxt)"
proof -
  define core where "core = strip t"
  obtain w1 w2 where t: "t = w1 @ core @ w2"
    and w1: "\<forall>c\<in>set w1. is_space c" and w2: "\<forall>c\<in>set w2. is_space c"
    and ends: "core \<noteq> [] \<longrightarrow> \<not> is_space (hd core) \<and> \<not> is_space (last core)"
    and empty: "core = [] \<longrightarrow> w2 = []"
    unfolding core_def using strip_decomp [of t] by blast
  have nx': "nxt = [] \<or> hd nxt = CHR ''<''" using nx at_marker_hd by blast
  have nxs: "nxt = [] \<or> \<not> is_space (hd nxt)" using nx' by (auto simp: is_space_def)
  have la: "lookahead nxt" using nx by (auto simp: lookahead_def)
  have tw: "trailing_ws (w2 @ nxt) = Some nxt" using w2 la nxs by (rule trailing_ws_spaces)
  have none: "\<forall>k<length core. trailing_ws (drop k core @ w2 @ nxt) = None"
  proof (intro allI impI)
    fix k assume k: "k < length core"
    then have "core \<noteq> []" by auto
    then have "\<not> is_space (last core)" using ends by simp
    with t show "trailing_ws (drop k core @ w2 @ nxt) = None"
      using nm nx' k by (rule no_stop_inside)
  qed
  have nlc: "CHR 0x0A \<notin> set core" using nl by (simp add: core_def)
  have "lazy_capture [] (core @ w2 @ nxt) = Some (rev [] @ core, nxt)"
    using none nlc tw by (rule lazy_capture_run)
  then have lz: "lazy_capture [] (core @ w2 @ nxt) = Some (core, nxt)" by simp
  have z: "core @ w2 @ nxt = [] \<or> \<not> is_space (hd (core @ w2 @ nxt))"
  proof (cases "core = []")
    case True
    then show ?thesis using empty nxs by simp
  next
    case False
    then show ?thesis using ends by simp
  qed
  have "leading_ws (w1 @ core @ w2 @ nxt) = Some (core, nxt)"
    using w1 z lz by (rule leading_ws_spaces)
  moreover have "t @ nxt = w1 @ core @ w2 @ nxt" unfolding t by simp
  ultimately have e: "leading_ws (t @ nxt) = Some (core, nxt)" by simp
  show ?thesis using m e by (simp add: match_here_def core_def)
qed

lemma findall_skip:
  assumes "\<not> has_marker pre" "nxt = [] \<or> hd nxt = CHR ''<''"
  shows "findall (pre @ nxt) = findall nxt"
  using assms(1)
proof (induction pre)
  case Nil
  then show ?case by simp
next
  case (Cons c pre)
  have "at_marker ((c # pre) @ nxt) = None"
  proof (rule ccontr)
    assume "at_marker ((c # pre) @ nxt) \<noteq> None"
    moreover have "c # pre \<noteq> []" by simp
    ultimately have "at_marker (c # pre) \<noteq> None" using assms(2) by (rule at_marker_append)
    then show False using Cons.prems by simp
  qed
  then have "match_here (c # pre @ nxt) = None" by (simp add: match_here_def)
  then have "findall (c # pre @ nxt) = findall (pre @ nxt)" by (rule findall_no_match)
  moreover have "\<not> has_marker pre" using Cons.prems by simp
  ultimately show ?case using Cons.IH by simp
qed

lemma marked_segments_start:
  assumes "\<forall>(ds, t)\<in>set segs. ds \<noteq> [] \<and> (\<forall>d\<in>set ds. is_digit d)"
  shows "marked_segments segs = [] \<or> at_marker (marked_segments segs) \<noteq> None"
proof (cases segs)
  case Nil
  then show ?thesis by (simp add: marked_segments_def)
next
  case (Cons p rest)
  obtain ds t where p: "p = (ds, t)" by (cases p)
  then have ds: "ds \<noteq> []" "\<forall>d\<in>set ds. is_digit d" using assms Cons by auto
  have "marked_segments segs = ''<extra_id_'' @ ds @ ''>'' @ (t @ marked_segments rest)"
    by (simp add: Cons p marked_segments_def)
  then have "at_marker (marked_segments segs) = Some (t @ marked_segments rest)"
    unfolding at_marker_iff using ds by blast
  then show ?thesis by simp
qed

lemma findall_marked_segments:
  assumes "\<forall>(ds, t)\<in>set segs. ds \<noteq> [] \<and> (\<forall>d\<in>set ds. is_digit d) \<and> \<not> has_marker t \<and>
             CHR 0x0A \<notin> set (strip t)"
  shows "findall (marked_segments segs) = map (\<lambda>(ds, t). strip t) segs"
  using assms
proof (induction segs)
  case Nil
  then show ?case by (simp add: marked_segments_def)
next
  case (Cons p segs)
  obtain ds t where p: "p = (ds, t)" by (cases p)
  then have ds: "ds \<noteq> []" "\<forall>d\<in>set ds. is_digit d" and t: "\<not> has_marker t" "CHR 0x0A \<notin> set (strip t)"
    using Cons.prems by auto
  have rest: "\<forall>(ds, t)\<in>set segs. ds \<noteq> [] \<and> (\<forall>d\<in>set ds. is_digit d) \<and> \<not> has_marker t \<and>
             CHR 0x0A \<notin> set (strip t)"
    using Cons.prems by simp
  then have "\<forall>(ds, t)\<in>set segs. ds \<noteq> [] \<and> (\<forall>d\<in>set ds. is_digit d)" by auto
  then have nx: "marked_segments segs = [] \<or> at_marker (marked_segments segs) \<noteq> None"
    by (rule marked_segments_start)
  have s: "marked_segments (p # segs) = ''<extra_id_'' @ ds @ ''>'' @ (t @ marked_segments segs)"
    by (simp add: p marked_segments_def)
  then have "at_marker (marked_segments (p # segs)) = Some (t @ marked_segments segs)"
    unfolding at_marker_iff using ds by blast
  then have "match_here (marked_segments (p # segs)) = Some (strip t, marked_segments segs)"
    using t nx by (rule match_segment)
  then have "findall (marked_segments (p # segs)) = strip t # findall (marked_segments segs)"
    by (rule findall_match)
  then show ?case using Cons.IH [OF rest] p by simp
qed


text \<open>
  Claim C7, as amended.  Let the cleaned text (the literals \<open><pad>\<close> and \<open></s>\<close>
  removed, then stripped) be a text without marker followed by \<open>N\<close> placeholder
  markers, each followed by a text that holds no marker and, once stripped, no line
  feed.  Then the Extractor returns exactly \<open>N\<close> fills, in order of appearance; each
  is the stripped text between its marker and the next one (or the end), is itself
  stripped, and holds no placeholder marker.  Both variants return the same fills.
\<close>

theorem extractor_fills:
  assumes "clean_output raw = pre @ marked_segments segs"
    and "\<not> has_marker pre"
    and "\<forall>(ds, t)\<in>set segs. ds \<noteq> [] \<and> (\<forall>d\<in>set ds. is_digit d) \<and> \<not> has_marker t \<and>
           CHR 0x0A \<notin> set (strip t)"
  shows "findall (clean_output raw) = map (\<lambda>(ds, t). strip t) segs \<and>
    batch_extract_fills_plain [raw] = [map (\<lambda>(ds, t). strip t) segs] \<and>
    batch_extract_fills [raw] = [map (\<lambda>(ds, t). strip t) segs] \<and>
    length (findall (clean_output raw)) = length segs \<and>
    (\<forall>f\<in>set (findall (clean_output raw)). strip f = f \<and> \<not> has_marker f)"
proof -
  have "\<forall>(ds, t)\<in>set segs. ds \<noteq> [] \<and> (\<forall>d\<in>set ds. is_digit d)" using assms(3) by auto
  then have "marked_segments segs = [] \<or> at_marker (marked_segments segs) \<noteq> None"
    by (rule marked_segments_start)
  then have nx: "marked_segments segs = [] \<or> hd (marked_segments segs) = CHR ''<''"
    using at_marker_hd by blast
  have "findall (pre @ marked_segments segs) = findall (marked_segments segs)"
    using assms(2) nx by (rule findall_skip)
  also have "\<dots> = map (\<lambda>(ds, t). strip t) segs" using assms(3) by (rule findall_marked_segments)
  finally have f: "findall (clean_output raw) = map (\<lambda>(ds, t). strip t) segs"
    using assms(1) by simp
  have each: "strip f = f \<and> \<not> has_marker f" if "f \<in> set (map (\<lambda>(ds, t). strip t) segs)" for f
  proof -
    from that obtain ds t where "(ds, t) \<in> set segs" "f = strip t" by auto
    then show ?thesis using assms(3) strip_strip strip_no_marker by auto
  qed
  have b1: "batch_extract_fills_plain [raw] = [map (\<lambda>(ds, t). strip t) segs]"
    by (simp add: batch_extract_fills_plain_def f)
  have b2: "batch_extract_fills [raw] = [map (\<lambda>(ds, t). strip t) segs]"
    by (auto simp: batch_extract_fills_def f strip_strip)
  have l: "length (findall (clean_output raw)) = length segs" by (simp add: f)
  have e: "\<forall>f\<in>set (findall (clean_output raw)). strip f = f \<and> \<not> has_marker f"
    unfolding f using each by blast
  show ?thesis using f b1 b2 l e by blast
qed

theorem extractor_fills_witness:
  "clean_output ''<pad> <extra_id_0> the cat <extra_id_1> sat</s><pad>'' =
     [] @ marked_segments [(''0'', '' the cat ''), (''1'', '' sat'')] \<and>
   batch_extract_fills [''<pad> <extra_id_0> the cat <extra_id_1> sat</s><pad>''] =
     [[''the cat'', ''sat'']] \<and>
   batch_extract_fills_plain [''<pad> <extra_id_0> the cat <extra_id_1> sat</s><pad>''] =
     [[''the cat'', ''sat'']]"
proof -
  have c: "clean_output ''<pad> <extra_id_0> the cat <extra_id_1> sat</s><pad>'' =
     [] @ marked_segments [(''0'', '' the cat ''), (''1'', '' sat'')]"
    by code_simp
  have p: "\<not> has_marker []" by simp
  have h: "\<forall>(ds, t)\<in>set [(''0'', '' the cat ''), (''1'', '' sat'')].
      ds \<noteq> [] \<and> (\<forall>d\<in>set ds. is_digit d) \<and> \<not> has_marker t \<and> CHR 0x0A \<notin> set (strip t)"
    by code_simp
  have s: "map (\<lambda>(ds, t). strip t) [(''0'', '' the cat ''), (''1'', '' sat'')] = [''the cat'', ''sat'']"
    by code_simp
  show ?thesis using extractor_fills [OF c p h] c unfolding s by simp
qed

text \<open>
  The claim as stated covers fills with a line feed inside.  The pattern's \<open>.\<close> does not
  match a line feed, so the match at the first marker fails: two markers, each followed
  by non-empty text, and one fill.
\<close>

theorem extractor_line_feed_counterexample:
  "clean_output (''<extra_id_0> a'' @ [CHR 0x0A] @ ''b <extra_id_1> c'') =
     marked_segments [(''0'', '' a'' @ [CHR 0x0A] @ ''b ''), (''1'', '' c'')] \<and>
   \<not> has_marker ('' a'' @ [CHR 0x0A] @ ''b '') \<and> \<not> has_marker '' c'' \<and>
   batch_extract_fills [''<extra_id_0> a'' @ [CHR 0x0A] @ ''b <extra_id_1> c''] = [[''c'']] \<and>
   batch_extract_fills_plain [''<extra_id_0> a'' @ [CHR 0x0A] @ ''b <extra_id_1> c''] = [[''c'']]"
  by code_simp

section \<open>Properties of the Log-Probability Scorer\<close>



















lemma chunks_of_step:
  "0 < b \<Longrightarrow> xs \<noteq> [] \<Longrightarrow> chunks_of b xs = take b xs # chunks_of b (drop b xs)"
  by (subst chunks_of.simps) simp

lemma chunks_of_Nil: "chunks_of b [] = []"
  by (subst chunks_of.simps) simp

lemma concat_chunks_of: "0 < b \<Longrightarrow> concat (chunks_of b xs) = xs"
proof (induction b xs rule: chunks_of.induct)
  case (1 b xs)
  show ?case
  proof (cases "xs = []")
    case True
    then show ?thesis by (simp add: chunks_of_Nil)
  next
    case False
    then have "concat (chunks_of b (drop b xs)) = drop b xs" using 1 by simp
    then show ?thesis using False "1.prems" by (simp add: chunks_of_step)
  qed
qed

lemma concat_map_chunks_length:
  assumes "\<forall>c. length (f c) = length c" "0 < b"
  shows "length (concat (map f (chunks_of b xs))) = length xs"
  using assms(2)
proof (induction b xs rule: chunks_of.induct)
  case (1 b xs)
  show ?case
  proof (cases "xs = []")
    case True
    then show ?thesis by (simp add: chunks_of_Nil)
  next
    case False
    then have "length (concat (map f (chunks_of b (drop b xs)))) = length (drop b xs)"
      using 1 by simp
    then show ?thesis using False "1.prems" assms(1) by (simp add: chunks_of_step)
  qed
qed

lemma concat_map_chunks_nth:
  assumes "\<forall>c. length (f c) = length c" "0 < b"
  shows "i < length xs \<Longrightarrow>
    concat (map f (chunks_of b xs)) ! i = f (take b (drop (i div b * b) xs)) ! (i mod b)"
  using assms(2)
proof (induction b xs arbitrary: i rule: chunks_of.induct)
  case (1 b xs)
  then have ne: "xs \<noteq> []" by auto
  have step: "concat (map f (chunks_of b xs)) = f (take b xs) @ concat (map f (chunks_of b (drop b xs)))"
    using ne "1.prems" by (simp add: chunks_of_step)
  have lf: "length (f (take b xs)) = min (length xs) b" using assms(1) by simp
  show ?case
  proof (cases "i < b")
    case True
    then have "i < length (f (take b xs))" using lf "1.prems" by simp
    then show ?thesis using True by (simp add: step nth_append)
  next
    case False
    then have ib: "b \<le> i" by simp
    then have lb: "length (f (take b xs)) = b" using lf "1.prems" by simp
    have i': "i - b < length (drop b xs)" using ib "1.prems" by simp
    have ih: "concat (map f (chunks_of b (drop b xs))) ! (i - b) =
        f (take b (drop ((i - b) div b * b) (drop b xs))) ! ((i - b) mod b)"
      using "1.IH" [of "i - b"] ne "1.prems" i' by simp
    have d: "(i - b) div b * b + b = i div b * b"
      using ib "1.prems"(2) by (simp add: le_div_geq)
    have m: "(i - b) mod b = i mod b" using ib by (simp add: le_mod_geq)
    have "concat (map f (chunks_of b xs)) ! i = concat (map f (chunks_of b (drop b xs))) ! (i - b)"
      using False lb by (simp add: step nth_append)
    also have "\<dots> = f (take b (drop (i div b * b) xs)) ! (i mod b)"
      unfolding ih m drop_drop d ..
    finally show ?thesis .
  qed
qed

lemma concat_map_chunks_rowwise:
  assumes "\<forall>c. f c = map g c" "0 < b"
  shows "concat (map f (chunks_of b xs)) = map g xs"
proof -
  have "f = map g" using assms(1) by (simp add: fun_eq_iff)
  then have "concat (map f (chunks_of b xs)) = map g (concat (chunks_of b xs))"
    by (simp add: map_concat)
  then show ?thesis using assms(2) by (simp add: concat_chunks_of)
qed

lemma score_chunk_length:
  assumes "length (input_ids (tok c)) = length c" "length (attention_mask (tok c)) = length c"
    "length (model (input_ids (tok c)) (attention_mask (tok c))) = length c"
  shows "length (score_chunk reduce tok model pad ce c) = length c"
  using assms by (simp add: score_chunk_def score_tensors_def loss_per_token_of_def Let_def)

text \<open>
  Claim C9.  With a positive sub-batch size (in particular one below the number \<open>K\<close>
  of texts, \<open>K \<ge> 2\<close>) and a tokenizer and model that deliver one row per text, the
  scorer returns a list of length \<open>K\<close>: the concatenation, in order, of the results of
  the successive sub-batches, which themselves concatenate to the input.  Entry \<open>i\<close> is
  entry \<open>i mod batch_size\<close> of the result of sub-batch \<open>i div batch_size\<close>; when each
  text's score does not depend on its sub-batch the result is the list of the texts'
  scores in input order.
\<close>

theorem scorer_batch_order:
  assumes "0 < batch_size"
    and "\<forall>c. length (input_ids (tok c)) = length c \<and> length (attention_mask (tok c)) = length c \<and>
             length (model (input_ids (tok c)) (attention_mask (tok c))) = length c"
  shows "\<exists>r. batch_average_log_prob reduce tok model pad ce texts batch_size = Inr r \<and>
    length r = length texts \<and>
    r = concat (map (score_chunk reduce tok model pad ce) (chunks_of (nat batch_size) texts)) \<and>
    concat (chunks_of (nat batch_size) texts) = texts \<and>
    (\<forall>i<length texts.
       r ! i = score_chunk reduce tok model pad ce
                 (take (nat batch_size) (drop (i div nat batch_size * nat batch_size) texts))
               ! (i mod nat batch_size)) \<and>
    (\<forall>f. (\<forall>c. score_chunk reduce tok model pad ce c = map f c) \<longrightarrow> r = map f texts)"
proof -
  let ?score = "score_chunk reduce tok model pad ce"
  let ?b = "nat batch_size"
  let ?r = "concat (map ?score (chunks_of ?b texts))"
  have b: "0 < ?b" using assms(1) by simp
  have len: "\<forall>c. length (?score c) = length c"
    using assms(2) score_chunk_length [of tok _ model reduce pad ce] by blast
  have run: "batch_average_log_prob reduce tok model pad ce texts batch_size = Inr ?r"
    using assms(1) by (simp add: batch_average_log_prob_def py_chunks_def)
  moreover have "length ?r = length texts" using len b by (rule concat_map_chunks_length)
  moreover have "concat (chunks_of ?b texts) = texts" using b by (rule concat_chunks_of)
  moreover have "\<forall>i<length texts. ?r ! i = ?score (take ?b (drop (i div ?b * ?b) texts)) ! (i mod ?b)"
    using concat_map_chunks_nth [OF len b] by blast
  moreover have "\<forall>f. (\<forall>c. ?score c = map f c) \<longrightarrow> ?r = map f texts"
    using concat_map_chunks_rowwise [OF _ b] by blast
  ultimately show ?thesis by blast
qed


theorem scorer_batch_order_witness:
  "batch_average_log_prob sample_log_prob_clamp
     (\<lambda>c. \<lparr>input_ids = map (\<lambda>t. [1, length t + 1]) c, attention_mask = map (\<lambda>t. [1, 1]) c\<rparr>)
     (\<lambda>ids am. map (map (\<lambda>k. ())) ids) 0 (\<lambda>l t. Fin (real t))
     [''a'', ''bb'', ''ccc''] 2 = Inr [Fin (- 2), Fin (- 3), Fin (- 4)] \<and>
   (\<exists>r. batch_average_log_prob sample_log_prob_clamp
     (\<lambda>c. \<lparr>input_ids = map (\<lambda>t. [1, length t + 1]) c, attention_mask = map (\<lambda>t. [1, 1]) c\<rparr>)
     (\<lambda>ids am. map (map (\<lambda>k. ())) ids) 0 (\<lambda>l t. Fin (real t))
     [''a'', ''bb'', ''ccc''] 2 = Inr r \<and> length r = 3 \<and>
     r ! 2 = score_chunk sample_log_prob_clamp
       (\<lambda>c. \<lparr>input_ids = map (\<lambda>t. [1, length t + 1]) c, attention_mask = map (\<lambda>t. [1, 1]) c\<rparr>)
       (\<lambda>ids am. map (map (\<lambda>k. ())) ids) 0 (\<lambda>l t. Fin (real t)) [''ccc''] ! 0)"
proof -
  let ?tok = "\<lambda>c :: string list.
      \<lparr>input_ids = map (\<lambda>t. [1, length t + 1]) c, attention_mask = map (\<lambda>t. [1, 1]) c\<rparr>"
  let ?model = "\<lambda>(ids :: nat list list) (am :: nat list list). map (map (\<lambda>k. ())) ids"
  let ?ce = "\<lambda>(l :: unit) t. Fin (real t)"
  have rows: "\<forall>c. length (input_ids (?tok c)) = length c \<and>
      length (attention_mask (?tok c)) = length c \<and>
      length (?model (input_ids (?tok c)) (attention_mask (?tok c))) = length c"
    by simp
  have pos: "(0::int) < 2" by simp
  have ev: "batch_average_log_prob sample_log_prob_clamp ?tok ?model 0 ?ce [''a'', ''bb'', ''ccc''] 2 =
      Inr [Fin (- 2), Fin (- 3), Fin (- 4)]"
    by (simp add: batch_average_log_prob_def py_chunks_def chunks_of.simps score_chunk_def
        score_tensors_def loss_per_token_of_def loss_fct_def sample_log_prob_clamp_def fsum_def)
  from scorer_batch_order [OF pos rows, of sample_log_prob_clamp 0 ?ce "[''a'', ''bb'', ''ccc'']"]
  obtain r where r: "batch_average_log_prob sample_log_prob_clamp ?tok ?model 0 ?ce
        [''a'', ''bb'', ''ccc''] 2 = Inr r" "length r = length [''a'', ''bb'', ''ccc'']"
      "\<forall>i<length [''a'', ''bb'', ''ccc''].
         r ! i = score_chunk sample_log_prob_clamp ?tok ?model 0 ?ce
                 (take (nat 2) (drop (i div nat 2 * nat 2) [''a'', ''bb'', ''ccc'']))
               ! (i mod nat 2)"
    by blast
  have "r ! 2 = score_chunk sample_log_prob_clamp ?tok ?model 0 ?ce [''ccc''] ! 0"
    using r(3) [rule_format, of 2] by simp
  then show ?thesis using ev r(1,2) by simp
qed

text \<open>
  A sub-batch size of zero makes \<open>range\<close> raise \<open>ValueError\<close>; with a negative one
  the loop does not run and the result is the empty list.
\<close>

theorem scorer_batch_size_not_positive:
  "batch_average_log_prob reduce tok model pad ce texts 0 = Inl ValueError \<and>
   batch_average_log_prob reduce tok model pad ce texts (- 1) = Inr []"
  by (simp add: batch_average_log_prob_def py_chunks_def)

end
